theory Spec2Isabelle
  imports Main "HOL-Library.Multiset"
begin

section \<open>Arrays, indices and in-place swaps\<close>

text \<open>
  The sorting core of \<^verbatim>\<open>parallel_quicksort.cpp\<close> works on a \<^verbatim>\<open>std::vector<T>&\<close>
  that it mutates in place through \<^verbatim>\<open>int\<close> indices. The vector is a list that every
  function takes and returns; an index is an \<open>int\<close>, as in the source (\<open>left - 1\<close> is
  \<open>-1\<close> for \<open>left = 0\<close>), and \<open>arr ! nat i\<close> reads \<^verbatim>\<open>arr[i]\<close>. The element type
  \<^verbatim>\<open>T\<close> with its \<^verbatim>\<open><\<close> and \<^verbatim>\<open><=\<close> is a linear order.

  Index arithmetic is the arithmetic of \<open>int\<close>. It is that of the 32-bit \<^verbatim>\<open>int\<close> of
  the source as long as every value is one of those (\<open>is_int\<close>). On a range inside a
  vector of fewer than \<open>2 ^ 31\<close> elements no index expression of the two sorts leaves
  them. Two expressions can: the subtraction \<^verbatim>\<open>right - left\<close> of the test of line 55,
  for arguments far apart, and \<^verbatim>\<open>vec.size() - 1\<close> of the entry call of line 142, which
  is narrowed to \<^verbatim>\<open>int\<close>, for a vector of \<open>2 ^ 31\<close> elements or more. The theorems
  that depend on them, on the correctness of the full-range sort and on the test of line
  55, carry the hypothesis that the values are representable.
\<close>

definition is_int :: "int \<Rightarrow> bool" where
  \<comment> \<open>a value of the 32-bit \<^verbatim>\<open>int\<close>\<close>
  "is_int x \<longleftrightarrow> - (2 ^ 31) \<le> x \<and> x < 2 ^ 31"

definition narrow_int :: "int \<Rightarrow> int" where
  \<comment> \<open>the conversion of a \<^verbatim>\<open>size_t\<close> value to \<^verbatim>\<open>int\<close>: the value modulo \<open>2 ^ 32\<close>, read
      as a signed 32-bit number\<close>
  "narrow_int x = (x + 2 ^ 31) mod 2 ^ 32 - 2 ^ 31"

definition int_call :: "nat \<Rightarrow> nat \<Rightarrow> int \<Rightarrow> int \<Rightarrow> int \<Rightarrow> bool" where
  \<comment> \<open>a call of \<^verbatim>\<open>quicksort_parallel\<close>: the two constants and the three arguments are
      values of \<^verbatim>\<open>int\<close>, and neither \<^verbatim>\<open>right - left\<close> of line 55 nor an index up to
      \<open>right + 1\<close> (\<^verbatim>\<open>i + 1\<close> of line 92) overflows\<close>
  "int_call threshold max_depth left right depth \<longleftrightarrow>
     is_int (int threshold) \<and> is_int (int max_depth) \<and>
     is_int left \<and> is_int right \<and> is_int depth \<and>
     is_int (right - left) \<and> is_int (right + 1)"

definition swap :: "'a list \<Rightarrow> int \<Rightarrow> int \<Rightarrow> 'a list" where
  \<comment> \<open>\<^verbatim>\<open>std::swap(arr[i], arr[j])\<close>\<close>
  "swap arr i j = arr[nat i := arr ! nat j, nat j := arr ! nat i]"

definition in_bounds :: "'a list \<Rightarrow> int \<Rightarrow> int \<Rightarrow> bool" where
  \<comment> \<open>every index of \<open>[left, right]\<close> is an index of the vector\<close>
  "in_bounds arr left right \<longleftrightarrow> 0 \<le> left \<and> right < int (length arr)"

section \<open>Pivot selection and partition\<close>

text \<open>
  Lines 18--28 and 61--71 of the source are the same median-of-three code, lines 31--39
  and 74--82 the same partition loop; each is modelled once and used by both sorts.
\<close>

definition choose_pivot :: "'a::linorder list \<Rightarrow> int \<Rightarrow> int \<Rightarrow> 'a list" where
  "choose_pivot arr left right =
     (let mid = left + (right - left) div 2;
          arr = (if arr ! nat mid < arr ! nat left then swap arr left mid else arr);
          arr = (if arr ! nat right < arr ! nat left then swap arr left right else arr);
          arr = (if arr ! nat mid < arr ! nat right then swap arr mid right else arr)
      in arr)"

function partition_loop :: "'a::linorder \<Rightarrow> int \<Rightarrow> 'a list \<Rightarrow> int \<Rightarrow> int \<Rightarrow> 'a list \<times> int" where
  "partition_loop pivot right arr i j =
     (if j < right then
        (if arr ! nat j \<le> pivot
         then partition_loop pivot right (swap arr (i + 1) j) (i + 1) (j + 1)
         else partition_loop pivot right arr i (j + 1))
      else (arr, i))"
  by pat_completeness auto
termination
  by (relation "measure (\<lambda>(pivot, right, arr, i, j). nat (right - j))") auto

declare partition_loop.simps [simp del]

definition partition_step :: "'a::linorder list \<Rightarrow> int \<Rightarrow> int \<Rightarrow> 'a list \<times> int" where
  "partition_step arr left right =
     (let pivot = arr ! nat right;
          (arr, i) = partition_loop pivot right arr (left - 1) left;
          i = i + 1
      in (swap arr i right, i))"

lemma partition_loop_index:
  "i < j \<Longrightarrow> j \<le> right \<Longrightarrow>
   i \<le> snd (partition_loop pivot right arr i j) \<and> snd (partition_loop pivot right arr i j) < right"
proof (induction pivot right arr i j rule: partition_loop.induct)
  case (1 pivot right arr i j)
  show ?case
  proof (cases "j < right")
    case True
    with "1.IH" "1.prems" show ?thesis
      by (subst (1 2) partition_loop.simps) (auto split: if_splits)
  next
    case False
    with "1.prems" show ?thesis
      by (subst (1 2) partition_loop.simps) auto
  qed
qed

lemma partition_step_index:
  assumes "left \<le> right"
  shows "left \<le> snd (partition_step arr left right)"
    and "snd (partition_step arr left right) \<le> right"
  using partition_loop_index [of "left - 1" left right "arr ! nat right" arr] assms
  by (auto simp: partition_step_def Let_def split: prod.splits)

section \<open>The sequential sort\<close>

text \<open>
  Reading or writing the vector outside its bounds is undefined behaviour in C++; the
  model returns \<open>None\<close> there. Every access of a frame with \<open>left < right\<close> is at an
  index of \<open>[left, right]\<close>, so one test per frame decides it.
\<close>

function quicksort_seq :: "'a::linorder list \<Rightarrow> int \<Rightarrow> int \<Rightarrow> 'a list option" where
  "quicksort_seq arr left right =
     (if left \<ge> right then Some arr
      else if \<not> in_bounds arr left right then None
      else
        let (arr1, i) = partition_step (choose_pivot arr left right) left right
        in case quicksort_seq arr1 left (i - 1) of
             None \<Rightarrow> None
           | Some arr2 \<Rightarrow> quicksort_seq arr2 (i + 1) right)"
  by pat_completeness auto
termination
proof (relation "measure (\<lambda>(arr, left, right). nat (right - left))", goal_cases)
  case 1
  show ?case by simp
next
  case (2 arr left right x arr1 i)
  then have "i = snd (partition_step (choose_pivot arr left right) left right)"
    by (metis snd_conv)
  with 2 show ?case
    using partition_step_index [of left right "choose_pivot arr left right"] by simp
next
  case (3 arr left right x arr1 i arr2)
  then have "i = snd (partition_step (choose_pivot arr left right) left right)"
    by (metis snd_conv)
  with 3 show ?case
    using partition_step_index [of left right "choose_pivot arr left right"] by simp
qed

declare quicksort_seq.simps [simp del]

section \<open>The parallel sort\<close>

text \<open>
  The two constants of \<^verbatim>\<open>quicksort_parallel\<close> are parameters of the model, so that a
  property can be stated for every configuration; the source fixes them to the values
  below. The left branch runs as a \<^verbatim>\<open>std::async\<close> task on \<open>[left, i - 1]\<close> while the
  calling thread sorts \<open>[i + 1, right]\<close>, and the frame returns after \<^verbatim>\<open>wait()\<close>; the
  two branches touch disjoint indices, so the vector after the join is the one obtained
  by running the left branch and then the right one (or the right one and then the left
  one, see \<open>branches_commute\<close> below).
\<close>

definition SEQUENTIAL_THRESHOLD :: nat where
  "SEQUENTIAL_THRESHOLD = 10000"

definition MAX_DEPTH :: nat where
  "MAX_DEPTH = 4"

function quicksort_parallel ::
  "nat \<Rightarrow> nat \<Rightarrow> 'a::linorder list \<Rightarrow> int \<Rightarrow> int \<Rightarrow> int \<Rightarrow> 'a list option" where
  "quicksort_parallel threshold max_depth arr left right depth =
     (if right - left \<le> int threshold \<or> depth \<ge> int max_depth
      then quicksort_seq arr left right
      else if \<not> in_bounds arr left right then None
      else
        let (arr1, i) = partition_step (choose_pivot arr left right) left right
        in case quicksort_parallel threshold max_depth arr1 left (i - 1) (depth + 1) of
             None \<Rightarrow> None
           | Some arr2 \<Rightarrow> quicksort_parallel threshold max_depth arr2 (i + 1) right (depth + 1))"
  by pat_completeness auto
termination
proof (relation "measure (\<lambda>(threshold, max_depth, arr, left, right, depth). nat (right - left))",
    goal_cases)
  case 1
  show ?case by simp
next
  case (2 threshold max_depth arr left right depth x arr1 i)
  then have "i = snd (partition_step (choose_pivot arr left right) left right)"
    by (metis snd_conv)
  with 2 show ?case
    using partition_step_index [of left right "choose_pivot arr left right"] by simp
next
  case (3 threshold max_depth arr left right depth x arr1 i arr2)
  then have "i = snd (partition_step (choose_pivot arr left right) left right)"
    by (metis snd_conv)
  with 3 show ?case
    using partition_step_index [of left right "choose_pivot arr left right"] by simp
qed

declare quicksort_parallel.simps [simp del]

definition parallelSort :: "nat \<Rightarrow> nat \<Rightarrow> 'a::linorder list \<Rightarrow> 'a list option" where
  \<comment> \<open>the entry call of line 142, \<^verbatim>\<open>quicksort_parallel(vec, 0, vec.size() - 1)\<close>,
      on a vector of fewer than \<open>2 ^ 31\<close> elements, where the narrowing to \<^verbatim>\<open>int\<close>
      keeps the value\<close>
  "parallelSort threshold max_depth arr =
     quicksort_parallel threshold max_depth arr 0 (int (length arr) - 1) 0"

section \<open>Instrumented execution\<close>

text \<open>
  The claims about cost and control flow are about what an execution does, not only about
  the vector it leaves. The functions below are the functions above with a log: they
  follow the same source lines and record each operation as they perform it;
  \<open>partition_step_ops_result\<close>, \<open>quicksort_seq_log_result\<close> and
  \<open>quicksort_parallel_log_result\<close> show that the vector they compute is the one of the
  functions above.
\<close>

datatype op =
    Compare int     \<comment> \<open>the test \<^verbatim>\<open>arr[j] <= pivot\<close> of line 33 / 76, at \<open>j\<close>\<close>
  | Swap int int    \<comment> \<open>a call \<^verbatim>\<open>std::swap(arr[i], arr[j])\<close> of line 35 / 78 or 39 / 82\<close>

fun is_Compare :: "op \<Rightarrow> bool" where
  "is_Compare (Compare j) = True"
| "is_Compare (Swap i j) = False"

fun is_Swap :: "op \<Rightarrow> bool" where
  "is_Swap (Compare j) = False"
| "is_Swap (Swap i j) = True"

fun exchanges :: "op \<Rightarrow> bool" where
  \<comment> \<open>a swap of two different positions\<close>
  "exchanges (Compare j) = False"
| "exchanges (Swap i j) = (i \<noteq> j)"

function partition_loop_ops ::
  "'a::linorder \<Rightarrow> int \<Rightarrow> 'a list \<Rightarrow> int \<Rightarrow> int \<Rightarrow> ('a list \<times> int) \<times> op list" where
  "partition_loop_ops pivot right arr i j =
     (if j < right then
        (if arr ! nat j \<le> pivot
         then (let (res, ops) = partition_loop_ops pivot right (swap arr (i + 1) j) (i + 1) (j + 1)
               in (res, Compare j # Swap (i + 1) j # ops))
         else (let (res, ops) = partition_loop_ops pivot right arr i (j + 1)
               in (res, Compare j # ops)))
      else ((arr, i), []))"
  by pat_completeness auto
termination
  by (relation "measure (\<lambda>(pivot, right, arr, i, j). nat (right - j))") auto

declare partition_loop_ops.simps [simp del]

definition partition_step_ops ::
  "'a::linorder list \<Rightarrow> int \<Rightarrow> int \<Rightarrow> ('a list \<times> int) \<times> op list" where
  "partition_step_ops arr left right =
     (let pivot = arr ! nat right;
          ((arr, i), ops) = partition_loop_ops pivot right arr (left - 1) left;
          i = i + 1
      in ((swap arr i right, i), ops @ [Swap i right]))"

datatype event =
    Pivot int int          \<comment> \<open>median-of-three and partition run on \<open>[left, right]\<close>\<close>
  | Delegate int int int   \<comment> \<open>\<^verbatim>\<open>quicksort_parallel\<close> hands \<open>[left, right]\<close> at \<open>depth\<close> to \<^verbatim>\<open>quicksort_seq\<close>\<close>
  | Spawn int int int      \<comment> \<open>\<^verbatim>\<open>std::async\<close> task launched for \<open>[left, right]\<close> at \<open>depth\<close>\<close>

fun is_Spawn :: "event \<Rightarrow> bool" where
  "is_Spawn (Spawn left right depth) = True"
| "is_Spawn (Pivot left right) = False"
| "is_Spawn (Delegate left right depth) = False"

function quicksort_seq_log ::
  "'a::linorder list \<Rightarrow> int \<Rightarrow> int \<Rightarrow> ('a list \<times> event list) option" where
  "quicksort_seq_log arr left right =
     (if left \<ge> right then Some (arr, [])
      else if \<not> in_bounds arr left right then None
      else
        let (arr1, i) = partition_step (choose_pivot arr left right) left right
        in case quicksort_seq_log arr1 left (i - 1) of
             None \<Rightarrow> None
           | Some (arr2, evs1) \<Rightarrow>
               (case quicksort_seq_log arr2 (i + 1) right of
                  None \<Rightarrow> None
                | Some (arr3, evs2) \<Rightarrow> Some (arr3, Pivot left right # evs1 @ evs2)))"
  by pat_completeness auto
termination
proof (relation "measure (\<lambda>(arr, left, right). nat (right - left))", goal_cases)
  case 1
  show ?case by simp
next
  case (2 arr left right x arr1 i)
  then have "i = snd (partition_step (choose_pivot arr left right) left right)"
    by (metis snd_conv)
  with 2 show ?case
    using partition_step_index [of left right "choose_pivot arr left right"] by simp
next
  case (3 arr left right x arr1 i res arr2 evs1)
  then have "i = snd (partition_step (choose_pivot arr left right) left right)"
    by (metis snd_conv)
  with 3 show ?case
    using partition_step_index [of left right "choose_pivot arr left right"] by simp
qed

declare quicksort_seq_log.simps [simp del]

function quicksort_parallel_log ::
  "nat \<Rightarrow> nat \<Rightarrow> 'a::linorder list \<Rightarrow> int \<Rightarrow> int \<Rightarrow> int \<Rightarrow> ('a list \<times> event list) option" where
  "quicksort_parallel_log threshold max_depth arr left right depth =
     (if right - left \<le> int threshold \<or> depth \<ge> int max_depth
      then (case quicksort_seq_log arr left right of
              None \<Rightarrow> None
            | Some (arr', evs) \<Rightarrow> Some (arr', Delegate left right depth # evs))
      else if \<not> in_bounds arr left right then None
      else
        let (arr1, i) = partition_step (choose_pivot arr left right) left right
        in case quicksort_parallel_log threshold max_depth arr1 left (i - 1) (depth + 1) of
             None \<Rightarrow> None
           | Some (arr2, evs1) \<Rightarrow>
               (case quicksort_parallel_log threshold max_depth arr2 (i + 1) right (depth + 1) of
                  None \<Rightarrow> None
                | Some (arr3, evs2) \<Rightarrow>
                    Some (arr3, Pivot left right # Spawn left (i - 1) (depth + 1) # evs1 @ evs2)))"
  by pat_completeness auto
termination
proof (relation "measure (\<lambda>(threshold, max_depth, arr, left, right, depth). nat (right - left))",
    goal_cases)
  case 1
  show ?case by simp
next
  case (2 threshold max_depth arr left right depth x arr1 i)
  then have "i = snd (partition_step (choose_pivot arr left right) left right)"
    by (metis snd_conv)
  with 2 show ?case
    using partition_step_index [of left right "choose_pivot arr left right"] by simp
next
  case (3 threshold max_depth arr left right depth x arr1 i res arr2 evs1)
  then have "i = snd (partition_step (choose_pivot arr left right) left right)"
    by (metis snd_conv)
  with 3 show ?case
    using partition_step_index [of left right "choose_pivot arr left right"] by simp
qed

declare quicksort_parallel_log.simps [simp del]

definition parallelSort_log ::
  "nat \<Rightarrow> nat \<Rightarrow> 'a::linorder list \<Rightarrow> ('a list \<times> event list) option" where
  "parallelSort_log threshold max_depth arr =
     quicksort_parallel_log threshold max_depth arr 0 (int (length arr) - 1) 0"

text \<open>
  \<open>pivot_ranges\<close> lists the ranges on which a logged execution selected a pivot,
  \<open>spawn_depths\<close> the depth argument of each task it launched.
\<close>

fun pivot_ranges :: "event list \<Rightarrow> (int \<times> int) list" where
  "pivot_ranges [] = []"
| "pivot_ranges (Pivot left right # evs) = (left, right) # pivot_ranges evs"
| "pivot_ranges (Delegate left right depth # evs) = pivot_ranges evs"
| "pivot_ranges (Spawn left right depth # evs) = pivot_ranges evs"

fun spawn_depths :: "event list \<Rightarrow> int list" where
  "spawn_depths [] = []"
| "spawn_depths (Spawn left right depth # evs) = depth # spawn_depths evs"
| "spawn_depths (Pivot left right # evs) = spawn_depths evs"
| "spawn_depths (Delegate left right depth # evs) = spawn_depths evs"

section \<open>Comparisons that fail\<close>

text \<open>
  \<^verbatim>\<open>T\<close>'s \<^verbatim>\<open>operator<\<close> and \<^verbatim>\<open>operator<=\<close> may throw. The functions below are the
  sorts with the two comparisons as parameters that return \<open>None\<close> when they throw. An
  exception leaves \<^verbatim>\<open>quicksort_seq\<close> and the pivot selection and partition of
  \<^verbatim>\<open>quicksort_parallel\<close> at once, with the vector as it is.

  In a frame that forks (lines 86--95), the left branch runs inside the \<^verbatim>\<open>std::async\<close>
  task: an exception there ends the task and is stored in \<^verbatim>\<open>left_future\<close>. The calling
  thread runs the right branch. If the right branch throws, the exception leaves the frame
  after the destructor of \<^verbatim>\<open>left_future\<close> has waited for the task; if it returns,
  \<^verbatim>\<open>left_future.wait()\<close> waits for the task and returns, whether the task ended by an
  exception or not (\<^verbatim>\<open>wait\<close> does not rethrow; only \<^verbatim>\<open>get\<close> would, and the source
  never calls it), and the frame returns. Either way the task has finished when the frame
  is left: \<open>wait_for_task\<close> gives the vector the finished task leaves and keeps nothing
  of its exception. The two branches touch disjoint indices, so the right branch is run
  on that vector.

  The test of line 55 subtracts two \<^verbatim>\<open>int\<close>s; where the difference is not an
  \<^verbatim>\<open>int\<close> the behaviour is undefined.
\<close>

datatype ('a, 'r) outcome =
    Returned 'r         \<comment> \<open>the code returns normally\<close>
  | Thrown "'a list"    \<comment> \<open>the exception of a comparison leaves the code; the vector as it is then\<close>
  | Undefined           \<comment> \<open>an access outside the vector\<close>

definition choose_pivot_exn ::
  "('a \<Rightarrow> 'a \<Rightarrow> bool option) \<Rightarrow> 'a list \<Rightarrow> int \<Rightarrow> int \<Rightarrow> ('a, 'a list) outcome" where
  "choose_pivot_exn lt arr left right =
     (let mid = left + (right - left) div 2 in
      (case lt (arr ! nat mid) (arr ! nat left) of
         None \<Rightarrow> Thrown arr
       | Some b1 \<Rightarrow>
           (let arr = (if b1 then swap arr left mid else arr) in
            (case lt (arr ! nat right) (arr ! nat left) of
               None \<Rightarrow> Thrown arr
             | Some b2 \<Rightarrow>
                 (let arr = (if b2 then swap arr left right else arr) in
                  (case lt (arr ! nat mid) (arr ! nat right) of
                     None \<Rightarrow> Thrown arr
                   | Some b3 \<Rightarrow> Returned (if b3 then swap arr mid right else arr)))))))"

function partition_loop_exn ::
  "('a \<Rightarrow> 'a \<Rightarrow> bool option) \<Rightarrow> 'a \<Rightarrow> int \<Rightarrow> 'a list \<Rightarrow> int \<Rightarrow> int \<Rightarrow> ('a, 'a list \<times> int) outcome" where
  "partition_loop_exn le pivot right arr i j =
     (if j < right then
        (case le (arr ! nat j) pivot of
           None \<Rightarrow> Thrown arr
         | Some b \<Rightarrow>
             if b then partition_loop_exn le pivot right (swap arr (i + 1) j) (i + 1) (j + 1)
             else partition_loop_exn le pivot right arr i (j + 1))
      else Returned (arr, i))"
  by pat_completeness auto
termination
  by (relation "measure (\<lambda>(le, pivot, right, arr, i, j). nat (right - j))") auto

declare partition_loop_exn.simps [simp del]

definition partition_step_exn ::
  "('a \<Rightarrow> 'a \<Rightarrow> bool option) \<Rightarrow> 'a list \<Rightarrow> int \<Rightarrow> int \<Rightarrow> ('a, 'a list \<times> int) outcome" where
  "partition_step_exn le arr left right =
     (let pivot = arr ! nat right in
      case partition_loop_exn le pivot right arr (left - 1) left of
        Returned (arr, i) \<Rightarrow> (let i = i + 1 in Returned (swap arr i right, i))
      | Thrown arr \<Rightarrow> Thrown arr
      | Undefined \<Rightarrow> Undefined)"

lemma partition_loop_exn_index:
  "i < j \<Longrightarrow> j \<le> right \<Longrightarrow> partition_loop_exn le pivot right arr i j = Returned (arr', i') \<Longrightarrow>
   i \<le> i' \<and> i' < right"
proof (induction le pivot right arr i j rule: partition_loop_exn.induct)
  case (1 le pivot right arr i j)
  show ?case
  proof (cases "j < right")
    case False
    with "1.prems" show ?thesis
      by (subst (asm) partition_loop_exn.simps) auto
  next
    case True
    from "1.prems"(3) True obtain b where b: "le (arr ! nat j) pivot = Some b"
      by (subst (asm) partition_loop_exn.simps) (auto split: option.splits)
    show ?thesis
    proof (cases b)
      case True
      with "1.prems"(3) \<open>j < right\<close> b
      have "partition_loop_exn le pivot right (swap arr (i + 1) j) (i + 1) (j + 1) = Returned (arr', i')"
        by (subst (asm) partition_loop_exn.simps) simp
      from "1.IH"(1) [OF \<open>j < right\<close> b True _ _ this] "1.prems"(1) \<open>j < right\<close>
      show ?thesis by simp
    next
      case False
      with "1.prems"(3) \<open>j < right\<close> b
      have "partition_loop_exn le pivot right arr i (j + 1) = Returned (arr', i')"
        by (subst (asm) partition_loop_exn.simps) simp
      from "1.IH"(2) [OF \<open>j < right\<close> b False _ _ this] "1.prems"(1) \<open>j < right\<close>
      show ?thesis by simp
    qed
  qed
qed

lemma partition_step_exn_index:
  assumes "left \<le> right" "partition_step_exn le arr left right = Returned (arr', i)"
  shows "left \<le> i" and "i \<le> right"
proof -
  from assms(2) obtain a i1 where
    run: "partition_loop_exn le (arr ! nat right) right arr (left - 1) left = Returned (a, i1)"
    and i: "i = i1 + 1"
    by (auto simp: partition_step_exn_def Let_def split: outcome.splits)
  from partition_loop_exn_index [OF _ assms(1) run] i
  show "left \<le> i" and "i \<le> right" by simp_all
qed

function quicksort_seq_exn ::
  "('a \<Rightarrow> 'a \<Rightarrow> bool option) \<Rightarrow> ('a \<Rightarrow> 'a \<Rightarrow> bool option) \<Rightarrow> 'a list \<Rightarrow> int \<Rightarrow> int \<Rightarrow>
   ('a, 'a list) outcome" where
  "quicksort_seq_exn lt le arr left right =
     (if left \<ge> right then Returned arr
      else if \<not> in_bounds arr left right then Undefined
      else
        case choose_pivot_exn lt arr left right of
          Thrown arr \<Rightarrow> Thrown arr
        | Undefined \<Rightarrow> Undefined
        | Returned arr0 \<Rightarrow>
            (case partition_step_exn le arr0 left right of
               Thrown arr \<Rightarrow> Thrown arr
             | Undefined \<Rightarrow> Undefined
             | Returned (arr1, i) \<Rightarrow>
                 (case quicksort_seq_exn lt le arr1 left (i - 1) of
                    Thrown arr \<Rightarrow> Thrown arr
                  | Undefined \<Rightarrow> Undefined
                  | Returned arr2 \<Rightarrow> quicksort_seq_exn lt le arr2 (i + 1) right)))"
  by pat_completeness auto
termination
proof (relation "measure (\<lambda>(lt, le, arr, left, right). nat (right - left))", goal_cases)
  case 1
  show ?case by simp
next
  case (2 lt le arr left right arr0 p arr1 i)
  with partition_step_exn_index [of left right le arr0 arr1 i] show ?case by simp
next
  case (3 lt le arr left right arr0 p arr1 i arr2)
  with partition_step_exn_index [of left right le arr0 arr1 i] show ?case by simp
qed

declare quicksort_seq_exn.simps [simp del]

fun wait_for_task :: "('a, 'a list) outcome \<Rightarrow> 'a list option" where
  \<comment> \<open>the vector once the task of \<^verbatim>\<open>left_future\<close> has finished, by \<^verbatim>\<open>wait()\<close> or by the
      destructor of the future; an exception of the task stays in the future\<close>
  "wait_for_task (Returned arr) = Some arr"
| "wait_for_task (Thrown arr) = Some arr"
| "wait_for_task Undefined = None"

function quicksort_parallel_exn ::
  "('a \<Rightarrow> 'a \<Rightarrow> bool option) \<Rightarrow> ('a \<Rightarrow> 'a \<Rightarrow> bool option) \<Rightarrow> nat \<Rightarrow> nat \<Rightarrow>
   'a list \<Rightarrow> int \<Rightarrow> int \<Rightarrow> int \<Rightarrow> ('a, 'a list) outcome" where
  "quicksort_parallel_exn lt le threshold max_depth arr left right depth =
     (if \<not> is_int (right - left) then Undefined
      else if right - left \<le> int threshold \<or> depth \<ge> int max_depth
      then quicksort_seq_exn lt le arr left right
      else if \<not> in_bounds arr left right then Undefined
      else
        case choose_pivot_exn lt arr left right of
          Thrown arr \<Rightarrow> Thrown arr
        | Undefined \<Rightarrow> Undefined
        | Returned arr0 \<Rightarrow>
            (case partition_step_exn le arr0 left right of
               Thrown arr \<Rightarrow> Thrown arr
             | Undefined \<Rightarrow> Undefined
             | Returned (arr1, i) \<Rightarrow>
                 (case wait_for_task
                         (quicksort_parallel_exn lt le threshold max_depth arr1 left (i - 1) (depth + 1)) of
                    None \<Rightarrow> Undefined
                  | Some arr2 \<Rightarrow>
                      quicksort_parallel_exn lt le threshold max_depth arr2 (i + 1) right (depth + 1))))"
  by pat_completeness auto
termination
proof (relation "measure (\<lambda>(lt, le, threshold, max_depth, arr, left, right, depth). nat (right - left))",
    goal_cases)
  case 1
  show ?case by simp
next
  case (2 lt le threshold max_depth arr left right depth arr0 p arr1 i)
  with partition_step_exn_index [of left right le arr0 arr1 i] show ?case by simp
next
  case (3 lt le threshold max_depth arr left right depth arr0 p arr1 i arr2)
  with partition_step_exn_index [of left right le arr0 arr1 i] show ?case by simp
qed

declare quicksort_parallel_exn.simps [simp del]

text \<open>
  An ordering on \<open>int\<close> to run the sorts on: its comparisons fail when both operands are
  below \<open>3\<close>. \<open>total_less\<close> and \<open>total_less_eq\<close> are the comparisons of a linear order,
  which never fail.
\<close>

definition fragile_less :: "int \<Rightarrow> int \<Rightarrow> bool option" where
  "fragile_less a b = (if a < 3 \<and> b < 3 then None else Some (a < b))"

definition fragile_less_eq :: "int \<Rightarrow> int \<Rightarrow> bool option" where
  "fragile_less_eq a b = (if a < 3 \<and> b < 3 then None else Some (a \<le> b))"

text \<open>
  A vector of \<open>10003\<close> elements, enough for the entry frame to fork with the constants
  of the source: every element is \<open>1\<close> but the two at the indices \<open>5001\<close> (the middle
  of the full range) and \<open>10002\<close> (its end), which are \<open>5\<close>.
\<close>

definition failing_vector :: "int list" where
  "failing_vector = replicate 5001 1 @ 5 # replicate 5000 1 @ [5]"


definition total_less :: "'a::linorder \<Rightarrow> 'a \<Rightarrow> bool option" where
  "total_less a b = Some (a < b)"

definition total_less_eq :: "'a::linorder \<Rightarrow> 'a \<Rightarrow> bool option" where
  "total_less_eq a b = Some (a \<le> b)"

definition outcome_of :: "'r option \<Rightarrow> ('a, 'r) outcome" where
  "outcome_of res = (case res of None \<Rightarrow> Undefined | Some r \<Rightarrow> Returned r)"

section \<open>Specification predicates\<close>

text \<open>
  \<open>sorted_range\<close> says that the elements at the indices of \<open>[left, right]\<close> are in
  non-decreasing order. \<open>permuted_within\<close> relates the vector before and after an
  operation on \<open>[left, right]\<close>: same length, same multiset of elements, every index
  outside the range untouched, and every element of the range taken from the range.
\<close>

definition sorted_range :: "'a::linorder list \<Rightarrow> int \<Rightarrow> int \<Rightarrow> bool" where
  "sorted_range arr left right \<longleftrightarrow>
     (\<forall>a b. left \<le> a \<and> a \<le> b \<and> b \<le> right \<longrightarrow> arr ! nat a \<le> arr ! nat b)"

definition permuted_within :: "int \<Rightarrow> int \<Rightarrow> 'a list \<Rightarrow> 'a list \<Rightarrow> bool" where
  "permuted_within left right arr arr' \<longleftrightarrow>
     length arr' = length arr \<and> mset arr' = mset arr \<and>
     (\<forall>k. 0 \<le> k \<and> k < int (length arr) \<and> (k < left \<or> right < k) \<longrightarrow> arr' ! nat k = arr ! nat k) \<and>
     (\<forall>k. left \<le> k \<and> k \<le> right \<longrightarrow> (\<exists>k'. left \<le> k' \<and> k' \<le> right \<and> arr' ! nat k = arr ! nat k'))"

text \<open>
  \<open>agree_on\<close> says that two vectors of the same length hold the same elements at the
  indices of \<open>[left, right]\<close>.
\<close>

definition agree_on :: "int \<Rightarrow> int \<Rightarrow> 'a list \<Rightarrow> 'a list \<Rightarrow> bool" where
  "agree_on left right a b \<longleftrightarrow>
     length a = length b \<and> (\<forall>k. left \<le> k \<and> k \<le> right \<longrightarrow> a ! nat k = b ! nat k)"

section \<open>Swaps, pivot selection and partition\<close>

lemma length_swap [simp]: "length (swap arr i j) = length arr"
  by (simp add: swap_def)

lemma swap_same [simp]: "swap arr i i = arr"
  by (simp add: swap_def)

lemma mset_swap_int:
  "0 \<le> i \<Longrightarrow> i < int (length arr) \<Longrightarrow> 0 \<le> j \<Longrightarrow> j < int (length arr) \<Longrightarrow>
   mset (swap arr i j) = mset arr"
  unfolding swap_def by (simp add: mset_swap)

lemma nth_swap:
  "0 \<le> i \<Longrightarrow> i < int (length arr) \<Longrightarrow> 0 \<le> j \<Longrightarrow> j < int (length arr) \<Longrightarrow> 0 \<le> k \<Longrightarrow>
   swap arr i j ! nat k = (if k = j then arr ! nat i else if k = i then arr ! nat j else arr ! nat k)"
  unfolding swap_def by (auto simp: nth_list_update)

lemma permuted_within_refl: "permuted_within left right arr arr"
  unfolding permuted_within_def by auto

lemma permuted_within_trans:
  "permuted_within left right a b \<Longrightarrow> permuted_within left right b c \<Longrightarrow>
   permuted_within left right a c"
  unfolding permuted_within_def by (auto; metis)

lemma permuted_within_mono:
  assumes "permuted_within l r a b" "l' \<le> l" "r \<le> r'" "0 \<le> l'" "r' < int (length a)"
  shows "permuted_within l' r' a b"
proof -
  have "\<exists>k'. l' \<le> k' \<and> k' \<le> r' \<and> b ! nat k = a ! nat k'" if k: "l' \<le> k" "k \<le> r'" for k
  proof (cases "l \<le> k \<and> k \<le> r")
    case True
    with assms(1) obtain k' where "l \<le> k'" "k' \<le> r" "b ! nat k = a ! nat k'"
      unfolding permuted_within_def by blast
    with assms(2,3) show ?thesis by (intro exI [of _ k']) simp
  next
    case False
    with k assms(4,5) have "0 \<le> k \<and> k < int (length a) \<and> (k < l \<or> r < k)" by auto
    with assms(1) have "b ! nat k = a ! nat k" by (simp add: permuted_within_def)
    with k show ?thesis by (intro exI [of _ k]) simp
  qed
  moreover have "b ! nat k = a ! nat k"
    if "0 \<le> k" "k < int (length a)" "k < l' \<or> r' < k" for k
  proof -
    from that assms(2,3) have "0 \<le> k \<and> k < int (length a) \<and> (k < l \<or> r < k)" by auto
    with assms(1) show ?thesis by (simp add: permuted_within_def)
  qed
  moreover have "length b = length a" "mset b = mset a"
    using assms(1) by (simp_all add: permuted_within_def)
  ultimately show ?thesis by (simp add: permuted_within_def)
qed

lemma permuted_within_swap:
  assumes "0 \<le> left" "right < int (length arr)"
    and "left \<le> i" "i \<le> right" "left \<le> j" "j \<le> right"
  shows "permuted_within left right arr (swap arr i j)"
proof -
  have b: "0 \<le> i" "i < int (length arr)" "0 \<le> j" "j < int (length arr)"
    using assms by auto
  have "\<exists>k'. left \<le> k' \<and> k' \<le> right \<and> swap arr i j ! nat k = arr ! nat k'"
    if k: "left \<le> k" "k \<le> right" for k
  proof -
    have "0 \<le> k" using k assms(1) by simp
    from nth_swap [OF b this] k assms(3-6) show ?thesis
      by (cases "k = j"; cases "k = i") auto
  qed
  moreover have "swap arr i j ! nat k = arr ! nat k"
    if "0 \<le> k" "k < left \<or> right < k" for k
    using nth_swap [OF b that(1)] that(2) assms(3-6) by auto
  ultimately show ?thesis
    using mset_swap_int [OF b] by (simp add: permuted_within_def)
qed

lemma choose_pivot_permuted:
  assumes "in_bounds arr left right" "left \<le> right"
  shows "permuted_within left right arr (choose_pivot arr left right)"
proof -
  define mid where "mid = left + (right - left) div 2"
  have mid: "left \<le> mid" "mid \<le> right" using assms by (auto simp: mid_def)
  have b: "0 \<le> left" "right < int (length arr)" using assms by (auto simp: in_bounds_def)
  define a1 where "a1 = (if arr ! nat mid < arr ! nat left then swap arr left mid else arr)"
  define a2 where "a2 = (if a1 ! nat right < a1 ! nat left then swap a1 left right else a1)"
  define a3 where "a3 = (if a2 ! nat mid < a2 ! nat right then swap a2 mid right else a2)"
  have p1: "permuted_within left right arr a1"
    using b mid assms(2) by (simp add: a1_def permuted_within_refl permuted_within_swap)
  then have l1: "length a1 = length arr" by (simp add: permuted_within_def)
  have p2: "permuted_within left right a1 a2"
    using b mid assms(2) l1 by (simp add: a2_def permuted_within_refl permuted_within_swap)
  then have l2: "length a2 = length arr" using l1 by (simp add: permuted_within_def)
  have p3: "permuted_within left right a2 a3"
    using b mid assms(2) l2 by (simp add: a3_def permuted_within_refl permuted_within_swap)
  have "choose_pivot arr left right = a3"
    by (simp add: choose_pivot_def Let_def mid_def a1_def a2_def a3_def)
  with p1 p2 p3 show ?thesis by (metis permuted_within_trans)
qed

lemma partition_loop_stop:
  "\<not> j < right \<Longrightarrow> partition_loop pivot right arr i j = (arr, i)"
  by (subst partition_loop.simps) simp

lemma partition_loop_le:
  "j < right \<Longrightarrow> arr ! nat j \<le> pivot \<Longrightarrow>
   partition_loop pivot right arr i j =
   partition_loop pivot right (swap arr (i + 1) j) (i + 1) (j + 1)"
  by (subst partition_loop.simps) simp

lemma partition_loop_gt:
  "j < right \<Longrightarrow> \<not> arr ! nat j \<le> pivot \<Longrightarrow>
   partition_loop pivot right arr i j = partition_loop pivot right arr i (j + 1)"
  by (subst partition_loop.simps) simp

lemma partition_loop_correct:
  assumes "0 \<le> left" "right < int (length arr)" "left - 1 \<le> i" "i < j" "j \<le> right"
    and "\<forall>k. left \<le> k \<and> k \<le> i \<longrightarrow> arr ! nat k \<le> pivot"
    and "\<forall>k. i < k \<and> k < j \<longrightarrow> \<not> arr ! nat k \<le> pivot"
    and "partition_loop pivot right arr i j = (arr', i')"
  shows "permuted_within left (right - 1) arr arr' \<and> i \<le> i' \<and> i' < right \<and>
    (\<forall>k. left \<le> k \<and> k \<le> i' \<longrightarrow> arr' ! nat k \<le> pivot) \<and>
    (\<forall>k. i' < k \<and> k < right \<longrightarrow> \<not> arr' ! nat k \<le> pivot)"
  using assms
proof (induction pivot right arr i j rule: partition_loop.induct)
  case (1 pivot right arr i j)
  show ?case
  proof (cases "j < right")
    case False
    with "1.prems" have "arr' = arr" "i' = i" "j = right"
      using partition_loop_stop [OF False, of pivot arr i] by simp_all
    with "1.prems" show ?thesis by (simp add: permuted_within_refl)
  next
    case True
    note jr = this
    show ?thesis
    proof (cases "arr ! nat j \<le> pivot")
      case False
      with jr "1.prems" have run: "partition_loop pivot right arr i (j + 1) = (arr', i')"
        by (simp add: partition_loop_gt)
      have "\<forall>k. i < k \<and> k < j + 1 \<longrightarrow> \<not> arr ! nat k \<le> pivot"
      proof (intro allI impI)
        fix k assume "i < k \<and> k < j + 1"
        then have "k = j \<or> (i < k \<and> k < j)" by auto
        with False "1.prems"(7) show "\<not> arr ! nat k \<le> pivot" by blast
      qed
      with "1.IH"(2) [OF jr False "1.prems"(1,2,3)] "1.prems" jr run show ?thesis
        by simp
    next
      case True
      define arr1 where "arr1 = swap arr (i + 1) j"
      from True jr "1.prems" have run: "partition_loop pivot right arr1 (i + 1) (j + 1) = (arr', i')"
        by (simp add: partition_loop_le arr1_def)
      have b: "0 \<le> i + 1" "i + 1 < int (length arr)" "0 \<le> j" "j < int (length arr)"
        using "1.prems" jr by auto
      have nth1: "arr1 ! nat k = (if k = j then arr ! nat (i + 1) else if k = i + 1 then arr ! nat j else arr ! nat k)"
        if "0 \<le> k" for k
        unfolding arr1_def using nth_swap [OF b that] .
      have lo: "\<forall>k. left \<le> k \<and> k \<le> i + 1 \<longrightarrow> arr1 ! nat k \<le> pivot"
      proof (intro allI impI)
        fix k assume k: "left \<le> k \<and> k \<le> i + 1"
        then have "0 \<le> k" using "1.prems"(1) by simp
        from nth1 [OF this] k True "1.prems"(4,6) show "arr1 ! nat k \<le> pivot"
          by (cases "k = i + 1") auto
      qed
      have hi: "\<forall>k. i + 1 < k \<and> k < j + 1 \<longrightarrow> \<not> arr1 ! nat k \<le> pivot"
      proof (intro allI impI)
        fix k assume k: "i + 1 < k \<and> k < j + 1"
        then have "0 \<le> k" using "1.prems"(3,1) by simp
        from nth1 [OF this] k "1.prems"(7) show "\<not> arr1 ! nat k \<le> pivot"
          by (cases "k = j") auto
      qed
      have len: "right < int (length arr1)" using "1.prems"(2) by (simp add: arr1_def)
      have step: "permuted_within left (right - 1) arr arr1"
        unfolding arr1_def using "1.prems" jr
        by (intro permuted_within_swap) auto
      have "permuted_within left (right - 1) arr1 arr' \<and> i + 1 \<le> i' \<and> i' < right \<and>
        (\<forall>k. left \<le> k \<and> k \<le> i' \<longrightarrow> arr' ! nat k \<le> pivot) \<and>
        (\<forall>k. i' < k \<and> k < right \<longrightarrow> \<not> arr' ! nat k \<le> pivot)"
        using "1.IH"(1) [OF jr True "1.prems"(1), folded arr1_def, OF len _ _ _ lo hi run]
          "1.prems" jr by simp
      with step show ?thesis
        by (auto intro: permuted_within_trans)
    qed
  qed
qed


lemma partition_step_correct:
  assumes "in_bounds arr left right" "left \<le> right"
    and "partition_step arr left right = (arr', i)"
  shows "permuted_within left right arr arr'"
    and "left \<le> i" and "i \<le> right"
    and "arr' ! nat i = arr ! nat right"
    and "\<forall>k. left \<le> k \<and> k < i \<longrightarrow> arr' ! nat k \<le> arr ! nat right"
    and "\<forall>k. i < k \<and> k \<le> right \<longrightarrow> arr ! nat right \<le> arr' ! nat k"
proof -
  define pivot where "pivot = arr ! nat right"
  obtain a1 i1 where run: "partition_loop pivot right arr (left - 1) left = (a1, i1)"
    by (cases "partition_loop pivot right arr (left - 1) left")
  have b: "0 \<le> left" "right < int (length arr)"
    using assms(1) by (auto simp: in_bounds_def)
  have loop: "permuted_within left (right - 1) arr a1 \<and> left - 1 \<le> i1 \<and> i1 < right \<and>
    (\<forall>k. left \<le> k \<and> k \<le> i1 \<longrightarrow> a1 ! nat k \<le> pivot) \<and>
    (\<forall>k. i1 < k \<and> k < right \<longrightarrow> \<not> a1 ! nat k \<le> pivot)"
  proof -
    have pre: "\<forall>k. left \<le> k \<and> k \<le> left - 1 \<longrightarrow> arr ! nat k \<le> pivot"
      "\<forall>k. left - 1 < k \<and> k < left \<longrightarrow> \<not> arr ! nat k \<le> pivot"
      by auto
    show ?thesis
      using partition_loop_correct [OF b _ _ assms(2) pre run] by simp
  qed
  from assms(3) run have res: "i = i1 + 1" "arr' = swap a1 i right"
    by (auto simp: partition_step_def pivot_def Let_def)
  from loop have len: "length a1 = length arr"
    by (simp add: permuted_within_def)
  from loop b have piv: "a1 ! nat right = pivot"
    by (simp add: permuted_within_def pivot_def)
  show i: "left \<le> i" "i \<le> right" using loop res by auto
  have ib: "0 \<le> i" "i < int (length a1)" "0 \<le> right" "right < int (length a1)"
    using i b len assms(2) by auto
  have nth': "arr' ! nat k = (if k = right then a1 ! nat i else if k = i then a1 ! nat right else a1 ! nat k)"
    if "0 \<le> k" for k
    unfolding res(2) using nth_swap [OF ib that] .
  from loop b assms(2) have "permuted_within left right arr a1"
    by (auto intro: permuted_within_mono)
  moreover have "permuted_within left right a1 arr'"
    unfolding res(2) using b i len assms(2) by (intro permuted_within_swap) auto
  ultimately show "permuted_within left right arr arr'"
    by (rule permuted_within_trans)
  show "arr' ! nat i = arr ! nat right"
    using nth' [OF ib(1)] piv by (simp add: pivot_def)
  show "\<forall>k. left \<le> k \<and> k < i \<longrightarrow> arr' ! nat k \<le> arr ! nat right"
  proof (intro allI impI)
    fix k assume k: "left \<le> k \<and> k < i"
    then have "0 \<le> k" using b by simp
    from nth' [OF this] k i loop res(1) show "arr' ! nat k \<le> arr ! nat right"
      by (simp add: pivot_def)
  qed
  show "\<forall>k. i < k \<and> k \<le> right \<longrightarrow> arr ! nat right \<le> arr' ! nat k"
  proof (intro allI impI)
    fix k assume k: "i < k \<and> k \<le> right"
    then have k0: "0 \<le> k" using ib by simp
    have "\<not> a1 ! nat i \<le> pivot" using loop k res(1) by simp
    moreover have "\<not> a1 ! nat k \<le> pivot" if "k < right" using loop k res(1) that by simp
    ultimately show "arr ! nat right \<le> arr' ! nat k"
      using nth' [OF k0] k by (cases "k = right") (auto simp: pivot_def)
  qed
qed

lemma sorted_range_join:
  assumes "sorted_range arr left (i - 1)" "sorted_range arr (i + 1) right"
    and "\<forall>k. left \<le> k \<and> k < i \<longrightarrow> arr ! nat k \<le> p"
    and "\<forall>k. i < k \<and> k \<le> right \<longrightarrow> p \<le> arr ! nat k"
    and "arr ! nat i = p"
  shows "sorted_range arr left right"
  unfolding sorted_range_def
proof (intro allI impI)
  fix a b assume ab: "left \<le> a \<and> a \<le> b \<and> b \<le> right"
  consider "b < i" | "i < a" | "a = i" "b = i" | "a < i" "b = i" | "a = i" "i < b" | "a < i" "i < b"
    using ab by linarith
  then show "arr ! nat a \<le> arr ! nat b"
  proof cases
    case 1 with assms(1) ab show ?thesis by (simp add: sorted_range_def)
  next
    case 2 with assms(2) ab show ?thesis by (simp add: sorted_range_def)
  next
    case 3 then show ?thesis by simp
  next
    case 4 with assms(3,5) ab show ?thesis by simp
  next
    case 5 with assms(4,5) ab show ?thesis by simp
  next
    case 6 
    with assms(3,4) ab have "arr ! nat a \<le> p" "p \<le> arr ! nat b" by simp_all
    then show ?thesis by (rule order_trans)
  qed
qed

lemma sort_step:
  assumes "in_bounds arr left right" "left < right"
    and part: "partition_step (choose_pivot arr left right) left right = (arr1, i)"
    and l: "permuted_within left (i - 1) arr1 arr2" "sorted_range arr2 left (i - 1)"
    and r: "permuted_within (i + 1) right arr2 arr3" "sorted_range arr3 (i + 1) right"
  shows "permuted_within left right arr arr3" and "sorted_range arr3 left right"
proof -
  define arr0 where "arr0 = choose_pivot arr left right"
  define p where "p = arr0 ! nat right"
  have b: "0 \<le> left" "right < int (length arr)"
    using assms(1) by (auto simp: in_bounds_def)
  have p0: "permuted_within left right arr arr0"
    unfolding arr0_def using assms(1,2) by (intro choose_pivot_permuted) auto
  then have len0: "length arr0 = length arr" by (simp add: permuted_within_def)
  then have b0: "in_bounds arr0 left right" using assms(1) by (simp add: in_bounds_def)
  have le: "left \<le> right" using assms(2) by simp
  note ps = partition_step_correct [OF b0 le part [folded arr0_def]]
  from ps(1) have len1: "length arr1 = length arr" using len0 by (simp add: permuted_within_def)
  from l(1) have len2: "length arr2 = length arr" using len1 by (simp add: permuted_within_def)
  have p2: "permuted_within left right arr1 arr2"
    using l(1) ps(2,3) b len1 by (auto intro: permuted_within_mono)
  have p3: "permuted_within left right arr2 arr3"
    using r(1) ps(2,3) b len2 by (auto intro: permuted_within_mono)
  from p0 ps(1) p2 p3 show "permuted_within left right arr arr3"
    by (metis permuted_within_trans)
  have i0: "0 \<le> i" "i < int (length arr)" using ps(2,3) b by auto
  have lo2: "arr2 ! nat k \<le> p" if "left \<le> k" "k < i" for k
  proof -
    from l(1) that obtain k' where "left \<le> k'" "k' \<le> i - 1" "arr2 ! nat k = arr1 ! nat k'"
      unfolding permuted_within_def by (metis zle_diff1_eq)
    with ps(5) show ?thesis by (simp add: p_def)
  qed
  have same2: "arr2 ! nat k = arr1 ! nat k" if "i \<le> k" "k \<le> right" for k
    using l(1) that b i0 len1 unfolding permuted_within_def by simp
  have same3: "arr3 ! nat k = arr2 ! nat k" if "left \<le> k" "k \<le> i" for k
    using r(1) that b i0 len2 unfolding permuted_within_def by simp
  have lo3: "\<forall>k. left \<le> k \<and> k < i \<longrightarrow> arr3 ! nat k \<le> p"
    using lo2 same3 by simp
  have hi3: "\<forall>k. i < k \<and> k \<le> right \<longrightarrow> p \<le> arr3 ! nat k"
  proof (intro allI impI)
    fix k assume k: "i < k \<and> k \<le> right"
    with r(1) obtain k' where k': "i + 1 \<le> k'" "k' \<le> right" "arr3 ! nat k = arr2 ! nat k'"
      unfolding permuted_within_def by (metis zless_imp_add1_zle)
    from ps(6) k' have "p \<le> arr1 ! nat k'" by (simp add: p_def)
    also have "arr1 ! nat k' = arr2 ! nat k'" using same2 [of k'] k' by simp
    finally show "p \<le> arr3 ! nat k" using k'(3) by simp
  qed
  have mid3: "arr3 ! nat i = p"
    using same3 [of i] same2 [of i] ps(2,3,4) by (simp add: p_def)
  have "sorted_range arr3 left (i - 1)"
    using l(2) same3 unfolding sorted_range_def by simp
  from sorted_range_join [OF this r(2) lo3 hi3 mid3]
  show "sorted_range arr3 left right" .
qed


lemma quicksort_seq_base:
  "left \<ge> right \<Longrightarrow> quicksort_seq arr left right = Some arr"
  by (subst quicksort_seq.simps) simp

lemma quicksort_seq_out_of_bounds:
  "left < right \<Longrightarrow> \<not> in_bounds arr left right \<Longrightarrow> quicksort_seq arr left right = None"
  by (subst quicksort_seq.simps) simp

lemma quicksort_seq_rec:
  "left < right \<Longrightarrow> in_bounds arr left right \<Longrightarrow>
   partition_step (choose_pivot arr left right) left right = (arr1, i) \<Longrightarrow>
   quicksort_seq arr left right =
     (case quicksort_seq arr1 left (i - 1) of
        None \<Rightarrow> None
      | Some arr2 \<Rightarrow> quicksort_seq arr2 (i + 1) right)"
  by (subst quicksort_seq.simps) simp

lemma sorted_range_trivial:
  assumes "right \<le> left"
  shows "sorted_range arr left right"
  unfolding sorted_range_def
proof (intro allI impI)
  fix a b assume "left \<le> a \<and> a \<le> b \<and> b \<le> right"
  with assms have "a = b" by linarith
  then show "arr ! nat a \<le> arr ! nat b" by simp
qed

lemma sub_ranges_in_bounds:
  assumes "in_bounds arr left right" "left < right"
    and "partition_step (choose_pivot arr left right) left right = (arr1, i)"
  shows "in_bounds arr1 left (i - 1)"
    and "permuted_within left (i - 1) arr1 arr2 \<Longrightarrow> in_bounds arr2 (i + 1) right"
    and "left \<le> i" and "i \<le> right"
proof -
  have p0: "permuted_within left right arr (choose_pivot arr left right)"
    using assms(1,2) by (intro choose_pivot_permuted) auto
  then have b0: "in_bounds (choose_pivot arr left right) left right"
    using assms(1) by (simp add: in_bounds_def permuted_within_def)
  have le: "left \<le> right" using assms(2) by simp
  note ps = partition_step_correct [OF b0 le assms(3)]
  show i: "left \<le> i" "i \<le> right" by (rule ps(2), rule ps(3))
  have len: "length arr1 = length arr"
    using ps(1) p0 by (simp add: permuted_within_def)
  show "in_bounds arr1 left (i - 1)"
    using assms(1) i len by (simp add: in_bounds_def)
  show "in_bounds arr2 (i + 1) right" if "permuted_within left (i - 1) arr1 arr2"
    using that assms(1) i len by (simp add: in_bounds_def permuted_within_def)
qed

lemma quicksort_seq_correct:
  "in_bounds arr left right \<or> right \<le> left \<Longrightarrow>
   \<exists>arr'. quicksort_seq arr left right = Some arr' \<and>
     permuted_within left right arr arr' \<and> sorted_range arr' left right"
proof (induction arr left right rule: quicksort_seq.induct)
  case (1 arr left right)
  show ?case
  proof (cases "right \<le> left")
    case True
    then show ?thesis
      by (simp add: quicksort_seq_base permuted_within_refl sorted_range_trivial)
  next
    case False
    then have lt: "left < right" by simp
    with "1.prems" have ib: "in_bounds arr left right" by simp
    obtain arr1 i where part: "partition_step (choose_pivot arr left right) left right = (arr1, i)"
      by (cases "partition_step (choose_pivot arr left right) left right")
    note sub = sub_ranges_in_bounds [OF ib lt part]
    from "1.IH"(1) [OF False _ refl part [symmetric]] ib sub(1)
    obtain arr2 where l: "quicksort_seq arr1 left (i - 1) = Some arr2"
      "permuted_within left (i - 1) arr1 arr2" "sorted_range arr2 left (i - 1)"
      by auto
    from "1.IH"(2) [OF False _ refl part [symmetric] l(1)] ib sub(2) [OF l(2)]
    obtain arr3 where r: "quicksort_seq arr2 (i + 1) right = Some arr3"
      "permuted_within (i + 1) right arr2 arr3" "sorted_range arr3 (i + 1) right"
      by auto
    have "quicksort_seq arr left right = Some arr3"
      using quicksort_seq_rec [OF lt ib part] l(1) r(1) by simp
    with sort_step [OF ib lt part l(2,3) r(2,3)] show ?thesis by simp
  qed
qed

lemma quicksort_parallel_delegate:
  "right - left \<le> int threshold \<or> depth \<ge> int max_depth \<Longrightarrow>
   quicksort_parallel threshold max_depth arr left right depth = quicksort_seq arr left right"
  by (subst quicksort_parallel.simps) simp

lemma quicksort_parallel_out_of_bounds:
  "\<not> (right - left \<le> int threshold \<or> depth \<ge> int max_depth) \<Longrightarrow>
   \<not> in_bounds arr left right \<Longrightarrow>
   quicksort_parallel threshold max_depth arr left right depth = None"
  by (subst quicksort_parallel.simps) simp

lemma quicksort_parallel_fork:
  "\<not> (right - left \<le> int threshold \<or> depth \<ge> int max_depth) \<Longrightarrow>
   in_bounds arr left right \<Longrightarrow>
   partition_step (choose_pivot arr left right) left right = (arr1, i) \<Longrightarrow>
   quicksort_parallel threshold max_depth arr left right depth =
     (case quicksort_parallel threshold max_depth arr1 left (i - 1) (depth + 1) of
        None \<Rightarrow> None
      | Some arr2 \<Rightarrow> quicksort_parallel threshold max_depth arr2 (i + 1) right (depth + 1))"
  by (subst quicksort_parallel.simps) simp

lemma quicksort_parallel_correct:
  "in_bounds arr left right \<or> right \<le> left \<Longrightarrow>
   \<exists>arr'. quicksort_parallel threshold max_depth arr left right depth = Some arr' \<and>
     permuted_within left right arr arr' \<and> sorted_range arr' left right"
proof (induction threshold max_depth arr left right depth rule: quicksort_parallel.induct)
  case (1 threshold max_depth arr left right depth)
  show ?case
  proof (cases "right - left \<le> int threshold \<or> depth \<ge> int max_depth")
    case True
    then show ?thesis
      using quicksort_seq_correct [OF "1.prems"] by (simp add: quicksort_parallel_delegate)
  next
    case False
    then have lt: "left < right" by simp
    with "1.prems" have ib: "in_bounds arr left right" by simp
    obtain arr1 i where part: "partition_step (choose_pivot arr left right) left right = (arr1, i)"
      by (cases "partition_step (choose_pivot arr left right) left right")
    note sub = sub_ranges_in_bounds [OF ib lt part]
    from "1.IH"(1) [OF False _ refl part [symmetric]] ib sub(1)
    obtain arr2 where l: "quicksort_parallel threshold max_depth arr1 left (i - 1) (depth + 1) = Some arr2"
      "permuted_within left (i - 1) arr1 arr2" "sorted_range arr2 left (i - 1)"
      by auto
    from "1.IH"(2) [OF False _ refl part [symmetric] l(1)] ib sub(2) [OF l(2)]
    obtain arr3 where r: "quicksort_parallel threshold max_depth arr2 (i + 1) right (depth + 1) = Some arr3"
      "permuted_within (i + 1) right arr2 arr3" "sorted_range arr3 (i + 1) right"
      by auto
    have "quicksort_parallel threshold max_depth arr left right depth = Some arr3"
      using quicksort_parallel_fork [OF False ib part] l(1) r(1) by simp
    with sort_step [OF ib lt part l(2,3) r(2,3)] show ?thesis by simp
  qed
qed

lemma sorted_range_full:
  "sorted_range arr 0 (int (length arr) - 1) \<Longrightarrow> sorted arr"
  unfolding sorted_range_def sorted_iff_nth_mono
proof (intro allI impI)
  fix i j assume h: "\<forall>a b. 0 \<le> a \<and> a \<le> b \<and> b \<le> int (length arr) - 1 \<longrightarrow> arr ! nat a \<le> arr ! nat b"
    and "i \<le> j" "j < length arr"
  then have "0 \<le> int i \<and> int i \<le> int j \<and> int j \<le> int (length arr) - 1" by simp
  with h have "arr ! nat (int i) \<le> arr ! nat (int j)" by blast
  then show "arr ! i \<le> arr ! j" by simp
qed


section \<open>The instrumented partition step\<close>

lemma partition_loop_ops_stop:
  "\<not> j < right \<Longrightarrow> partition_loop_ops pivot right arr i j = ((arr, i), [])"
  by (subst partition_loop_ops.simps) simp

lemma partition_loop_ops_le:
  "j < right \<Longrightarrow> arr ! nat j \<le> pivot \<Longrightarrow>
   partition_loop_ops pivot right (swap arr (i + 1) j) (i + 1) (j + 1) = (res, ops) \<Longrightarrow>
   partition_loop_ops pivot right arr i j = (res, Compare j # Swap (i + 1) j # ops)"
  by (subst partition_loop_ops.simps) simp

lemma partition_loop_ops_gt:
  "j < right \<Longrightarrow> \<not> arr ! nat j \<le> pivot \<Longrightarrow>
   partition_loop_ops pivot right arr i (j + 1) = (res, ops) \<Longrightarrow>
   partition_loop_ops pivot right arr i j = (res, Compare j # ops)"
  by (subst partition_loop_ops.simps) simp

lemma partition_loop_ops_result:
  "fst (partition_loop_ops pivot right arr i j) = partition_loop pivot right arr i j"
proof (induction pivot right arr i j rule: partition_loop.induct)
  case (1 pivot right arr i j)
  show ?case
  proof (cases "j < right")
    case False
    then show ?thesis
      by (simp add: partition_loop_ops_stop partition_loop_stop)
  next
    case True
    show ?thesis
    proof (cases "arr ! nat j \<le> pivot")
      case le: True
      obtain res ops where
        run: "partition_loop_ops pivot right (swap arr (i + 1) j) (i + 1) (j + 1) = (res, ops)"
        by (cases "partition_loop_ops pivot right (swap arr (i + 1) j) (i + 1) (j + 1)")
      from "1.IH"(1) [OF True le] run show ?thesis
        by (simp add: partition_loop_ops_le [OF True le run] partition_loop_le [OF True le])
    next
      case gt: False
      obtain res ops where
        run: "partition_loop_ops pivot right arr i (j + 1) = (res, ops)"
        by (cases "partition_loop_ops pivot right arr i (j + 1)")
      from "1.IH"(2) [OF True gt] run show ?thesis
        by (simp add: partition_loop_ops_gt [OF True gt run] partition_loop_gt [OF True gt])
    qed
  qed
qed

lemma partition_step_ops_result:
  "fst (partition_step_ops arr left right) = partition_step arr left right"
proof -
  obtain a i ops where
    run: "partition_loop_ops (arr ! nat right) right arr (left - 1) left = ((a, i), ops)"
    by (metis surj_pair)
  with partition_loop_ops_result [of "arr ! nat right" right arr "left - 1" left]
  have "partition_loop (arr ! nat right) right arr (left - 1) left = (a, i)" by simp
  with run show ?thesis
    by (simp add: partition_step_ops_def partition_step_def Let_def)
qed

lemma partition_loop_ops_count:
  assumes "i < j" "j \<le> right"
    and "partition_loop_ops pivot right arr i j = ((arr', i'), ops)"
  shows "length (filter is_Compare ops) = nat (right - j) \<and>
    length (filter is_Swap ops) \<le> nat (right - j) \<and>
    length (filter exchanges ops) + (if i' + 1 < right then 1 else 0)
      \<le> nat (right - j) + (if i + 1 < j then 1 else 0)"
  using assms
proof (induction pivot right arr i j arbitrary: ops rule: partition_loop.induct)
  case (1 pivot right arr i j)
  show ?case
  proof (cases "j < right")
    case False
    with "1.prems" have "ops = []" "i' = i" "j = right"
      using partition_loop_ops_stop [OF False, of pivot arr i] by simp_all
    then show ?thesis by simp
  next
    case True
    show ?thesis
    proof (cases "arr ! nat j \<le> pivot")
      case le: True
      obtain res ops1 where
        run: "partition_loop_ops pivot right (swap arr (i + 1) j) (i + 1) (j + 1) = (res, ops1)"
        by (cases "partition_loop_ops pivot right (swap arr (i + 1) j) (i + 1) (j + 1)")
      from partition_loop_ops_le [OF True le run] "1.prems"(3)
      have eq: "res = (arr', i')" "ops = Compare j # Swap (i + 1) j # ops1" by simp_all
      from "1.IH"(1) [OF True le _ _ run [unfolded eq(1)]] "1.prems"(1) True
      have ih: "length (filter is_Compare ops1) = nat (right - (j + 1))"
        "length (filter is_Swap ops1) \<le> nat (right - (j + 1))"
        "length (filter exchanges ops1) + (if i' + 1 < right then 1 else 0)
           \<le> nat (right - (j + 1)) + (if i + 1 + 1 < j + 1 then 1 else 0)"
        by simp_all
      have n: "nat (right - j) = Suc (nat (right - (j + 1)))" using True by simp
      show ?thesis
        unfolding eq(2) n using ih by (simp split: if_splits)
    next
      case gt: False
      obtain res ops1 where
        run: "partition_loop_ops pivot right arr i (j + 1) = (res, ops1)"
        by (cases "partition_loop_ops pivot right arr i (j + 1)")
      from partition_loop_ops_gt [OF True gt run] "1.prems"(3)
      have eq: "res = (arr', i')" "ops = Compare j # ops1" by simp_all
      from "1.IH"(2) [OF True gt _ _ run [unfolded eq(1)]] "1.prems"(1) True
      have ih: "length (filter is_Compare ops1) = nat (right - (j + 1))"
        "length (filter is_Swap ops1) \<le> nat (right - (j + 1))"
        "length (filter exchanges ops1) + (if i' + 1 < right then 1 else 0)
           \<le> nat (right - (j + 1)) + (if i + 1 < j + 1 then 1 else 0)"
        by simp_all
      have n: "nat (right - j) = Suc (nat (right - (j + 1)))" using True by simp
      show ?thesis
        unfolding eq(2) n using ih "1.prems"(1) by (simp split: if_splits)
    qed
  qed
qed

lemma partition_step_ops_count:
  assumes "left \<le> right" and "partition_step_ops arr left right = (res, ops)"
  shows "length (filter is_Compare ops) = nat (right - left)"
    and "length (filter is_Swap ops) \<le> nat (right - left) + 1"
    and "length (filter exchanges ops) \<le> nat (right - left)"
proof -
  obtain a i ops1 where
    run: "partition_loop_ops (arr ! nat right) right arr (left - 1) left = ((a, i), ops1)"
    by (metis surj_pair)
  with assms(2) have ops: "ops = ops1 @ [Swap (i + 1) right]"
    by (auto simp: partition_step_ops_def Let_def)
  from partition_loop_ops_count [OF _ assms(1) run]
  have c: "length (filter is_Compare ops1) = nat (right - left)"
    "length (filter is_Swap ops1) \<le> nat (right - left)"
    "length (filter exchanges ops1) + (if i + 1 < right then 1 else 0) \<le> nat (right - left)"
    by simp_all
  from partition_loop_ops_result [of "arr ! nat right" right arr "left - 1" left] run
  have "partition_loop (arr ! nat right) right arr (left - 1) left = (a, i)" by simp
  then have "snd (partition_loop (arr ! nat right) right arr (left - 1) left) = i" by simp
  with partition_loop_index [of "left - 1" left right "arr ! nat right" arr] assms(1)
  have "i < right" by simp
  with c show "length (filter is_Compare ops) = nat (right - left)"
    and "length (filter is_Swap ops) \<le> nat (right - left) + 1"
    and "length (filter exchanges ops) \<le> nat (right - left)"
    unfolding ops by (simp_all split: if_splits)
qed


section \<open>The logged sorts\<close>

lemma quicksort_seq_log_base:
  "left \<ge> right \<Longrightarrow> quicksort_seq_log arr left right = Some (arr, [])"
  by (subst quicksort_seq_log.simps) simp

lemma quicksort_seq_log_out_of_bounds:
  "left < right \<Longrightarrow> \<not> in_bounds arr left right \<Longrightarrow> quicksort_seq_log arr left right = None"
  by (subst quicksort_seq_log.simps) simp

lemma quicksort_seq_log_rec:
  "left < right \<Longrightarrow> in_bounds arr left right \<Longrightarrow>
   partition_step (choose_pivot arr left right) left right = (arr1, i) \<Longrightarrow>
   quicksort_seq_log arr left right =
     (case quicksort_seq_log arr1 left (i - 1) of
        None \<Rightarrow> None
      | Some (arr2, evs1) \<Rightarrow>
          (case quicksort_seq_log arr2 (i + 1) right of
             None \<Rightarrow> None
           | Some (arr3, evs2) \<Rightarrow> Some (arr3, Pivot left right # evs1 @ evs2)))"
  by (subst quicksort_seq_log.simps) simp

lemma quicksort_seq_log_result:
  "map_option fst (quicksort_seq_log arr left right) = quicksort_seq arr left right"
proof (induction arr left right rule: quicksort_seq.induct)
  case (1 arr left right)
  show ?case
  proof (cases "right \<le> left")
    case True
    then show ?thesis by (simp add: quicksort_seq_log_base quicksort_seq_base)
  next
    case False
    then have lt: "left < right" by simp
    show ?thesis
    proof (cases "in_bounds arr left right")
      case oob: False
      with lt show ?thesis
        by (simp add: quicksort_seq_log_out_of_bounds quicksort_seq_out_of_bounds)
    next
      case ib: True
      obtain arr1 i where part: "partition_step (choose_pivot arr left right) left right = (arr1, i)"
        by (cases "partition_step (choose_pivot arr left right) left right")
      have l: "map_option fst (quicksort_seq_log arr1 left (i - 1)) = quicksort_seq arr1 left (i - 1)"
        using "1.IH"(1) [OF False _ refl part [symmetric]] ib by simp
      show ?thesis
      proof (cases "quicksort_seq_log arr1 left (i - 1)")
        case None
        with l show ?thesis
          by (simp add: quicksort_seq_log_rec [OF lt ib part] quicksort_seq_rec [OF lt ib part])
      next
        case (Some p)
        obtain arr2 evs1 where p: "p = (arr2, evs1)" by (cases p)
        from Some p l have sl: "quicksort_seq arr1 left (i - 1) = Some arr2" by simp
        have r: "map_option fst (quicksort_seq_log arr2 (i + 1) right) = quicksort_seq arr2 (i + 1) right"
          using "1.IH"(2) [OF False _ refl part [symmetric] sl] ib by simp
        from Some p sl r show ?thesis
          by (auto simp: quicksort_seq_log_rec [OF lt ib part] quicksort_seq_rec [OF lt ib part]
              split: option.splits)
      qed
    qed
  qed
qed

lemma quicksort_parallel_log_delegate:
  "right - left \<le> int threshold \<or> depth \<ge> int max_depth \<Longrightarrow>
   quicksort_parallel_log threshold max_depth arr left right depth =
     (case quicksort_seq_log arr left right of
        None \<Rightarrow> None
      | Some (arr', evs) \<Rightarrow> Some (arr', Delegate left right depth # evs))"
  by (subst quicksort_parallel_log.simps) simp

lemma quicksort_parallel_log_out_of_bounds:
  "\<not> (right - left \<le> int threshold \<or> depth \<ge> int max_depth) \<Longrightarrow>
   \<not> in_bounds arr left right \<Longrightarrow>
   quicksort_parallel_log threshold max_depth arr left right depth = None"
  by (subst quicksort_parallel_log.simps) simp

lemma quicksort_parallel_log_fork:
  "\<not> (right - left \<le> int threshold \<or> depth \<ge> int max_depth) \<Longrightarrow>
   in_bounds arr left right \<Longrightarrow>
   partition_step (choose_pivot arr left right) left right = (arr1, i) \<Longrightarrow>
   quicksort_parallel_log threshold max_depth arr left right depth =
     (case quicksort_parallel_log threshold max_depth arr1 left (i - 1) (depth + 1) of
        None \<Rightarrow> None
      | Some (arr2, evs1) \<Rightarrow>
          (case quicksort_parallel_log threshold max_depth arr2 (i + 1) right (depth + 1) of
             None \<Rightarrow> None
           | Some (arr3, evs2) \<Rightarrow>
               Some (arr3, Pivot left right # Spawn left (i - 1) (depth + 1) # evs1 @ evs2)))"
  by (subst quicksort_parallel_log.simps) simp

lemma quicksort_parallel_log_result:
  "map_option fst (quicksort_parallel_log threshold max_depth arr left right depth) =
   quicksort_parallel threshold max_depth arr left right depth"
proof (induction threshold max_depth arr left right depth rule: quicksort_parallel.induct)
  case (1 threshold max_depth arr left right depth)
  show ?case
  proof (cases "right - left \<le> int threshold \<or> depth \<ge> int max_depth")
    case True
    then show ?thesis
      using quicksort_seq_log_result [of arr left right]
      by (auto simp: quicksort_parallel_log_delegate quicksort_parallel_delegate
          split: option.splits)
  next
    case False
    show ?thesis
    proof (cases "in_bounds arr left right")
      case oob: False
      with False show ?thesis
        by (simp add: quicksort_parallel_log_out_of_bounds quicksort_parallel_out_of_bounds)
    next
      case ib: True
      obtain arr1 i where part: "partition_step (choose_pivot arr left right) left right = (arr1, i)"
        by (cases "partition_step (choose_pivot arr left right) left right")
      have l: "map_option fst (quicksort_parallel_log threshold max_depth arr1 left (i - 1) (depth + 1)) =
          quicksort_parallel threshold max_depth arr1 left (i - 1) (depth + 1)"
        using "1.IH"(1) [OF False _ refl part [symmetric]] ib by simp
      show ?thesis
      proof (cases "quicksort_parallel_log threshold max_depth arr1 left (i - 1) (depth + 1)")
        case None
        with l show ?thesis
          by (simp add: quicksort_parallel_log_fork [OF False ib part]
              quicksort_parallel_fork [OF False ib part])
      next
        case (Some p)
        obtain arr2 evs1 where p: "p = (arr2, evs1)" by (cases p)
        from Some p l
        have sl: "quicksort_parallel threshold max_depth arr1 left (i - 1) (depth + 1) = Some arr2"
          by simp
        have r: "map_option fst (quicksort_parallel_log threshold max_depth arr2 (i + 1) right (depth + 1)) =
            quicksort_parallel threshold max_depth arr2 (i + 1) right (depth + 1)"
          using "1.IH"(2) [OF False _ refl part [symmetric] sl] ib by simp
        from Some p sl r show ?thesis
          by (auto simp: quicksort_parallel_log_fork [OF False ib part]
              quicksort_parallel_fork [OF False ib part] split: option.splits)
      qed
    qed
  qed
qed


lemma pivot_ranges_append [simp]:
  "pivot_ranges (xs @ ys) = pivot_ranges xs @ pivot_ranges ys"
  by (induction xs rule: pivot_ranges.induct) simp_all

lemma spawn_depths_append [simp]:
  "spawn_depths (xs @ ys) = spawn_depths xs @ spawn_depths ys"
  by (induction xs rule: spawn_depths.induct) simp_all

lemma length_spawn_depths: "length (spawn_depths evs) = length (filter is_Spawn evs)"
  by (induction evs rule: spawn_depths.induct) simp_all

lemma quicksort_seq_log_cases:
  assumes "quicksort_seq_log arr left right = Some (arr', evs)" "left < right"
  obtains arr1 i arr2 evs1 evs2 where
    "in_bounds arr left right"
    "partition_step (choose_pivot arr left right) left right = (arr1, i)"
    "quicksort_seq_log arr1 left (i - 1) = Some (arr2, evs1)"
    "quicksort_seq_log arr2 (i + 1) right = Some (arr', evs2)"
    "evs = Pivot left right # evs1 @ evs2"
proof -
  have ib: "in_bounds arr left right"
    using assms quicksort_seq_log_out_of_bounds [of left right arr] by auto
  obtain arr1 i where part: "partition_step (choose_pivot arr left right) left right = (arr1, i)"
    by (cases "partition_step (choose_pivot arr left right) left right")
  from assms(1) quicksort_seq_log_rec [OF assms(2) ib part]
  obtain arr2 evs1 evs2 where "quicksort_seq_log arr1 left (i - 1) = Some (arr2, evs1)"
    "quicksort_seq_log arr2 (i + 1) right = Some (arr', evs2)"
    "evs = Pivot left right # evs1 @ evs2"
    by (auto split: option.splits)
  with ib part show ?thesis by (rule that)
qed

lemma quicksort_seq_log_events:
  "quicksort_seq_log arr left right = Some (arr', evs) \<Longrightarrow>
   (\<forall>e \<in> set evs. \<exists>l r. e = Pivot l r \<and> l < r) \<and>
   int (length evs) \<le> max 0 (right - left) \<and>
   (left < right \<longrightarrow> Pivot left right \<in> set evs)"
proof (induction arr left right arbitrary: arr' evs rule: quicksort_seq.induct)
  case (1 arr left right)
  show ?case
  proof (cases "right \<le> left")
    case True
    with "1.prems" show ?thesis by (simp add: quicksort_seq_log_base)
  next
    case False
    then have lt: "left < right" by simp
    from "1.prems" lt obtain arr1 i arr2 evs1 evs2 where
      ib: "in_bounds arr left right"
      and part: "partition_step (choose_pivot arr left right) left right = (arr1, i)"
      and l: "quicksort_seq_log arr1 left (i - 1) = Some (arr2, evs1)"
      and r: "quicksort_seq_log arr2 (i + 1) right = Some (arr', evs2)"
      and evs: "evs = Pivot left right # evs1 @ evs2"
      by (rule quicksort_seq_log_cases)
    have sl: "quicksort_seq arr1 left (i - 1) = Some arr2"
      using quicksort_seq_log_result [of arr1 left "i - 1"] l by simp
    have i: "left \<le> i" "i \<le> right"
      using partition_step_index [of left right "choose_pivot arr left right"] part lt by simp_all
    from "1.IH"(1) [OF False _ refl part [symmetric] l] ib
    have ih1: "\<forall>e \<in> set evs1. \<exists>l r. e = Pivot l r \<and> l < r"
      "int (length evs1) \<le> max 0 (i - 1 - left)" by simp_all
    from "1.IH"(2) [OF False _ refl part [symmetric] sl r] ib
    have ih2: "\<forall>e \<in> set evs2. \<exists>l r. e = Pivot l r \<and> l < r"
      "int (length evs2) \<le> max 0 (right - (i + 1))" by simp_all
    have "int (length evs) \<le> max 0 (right - left)"
      using ih1(2) ih2(2) i lt unfolding evs by simp
    moreover have "\<forall>e \<in> set evs. \<exists>l r. e = Pivot l r \<and> l < r"
      using ih1(1) ih2(1) lt unfolding evs by auto
    ultimately show ?thesis unfolding evs by simp
  qed
qed

lemma quicksort_parallel_log_cases:
  assumes "quicksort_parallel_log threshold max_depth arr left right depth = Some (arr', evs)"
    and "\<not> (right - left \<le> int threshold \<or> depth \<ge> int max_depth)"
  obtains arr1 i arr2 evs1 evs2 where
    "in_bounds arr left right"
    "partition_step (choose_pivot arr left right) left right = (arr1, i)"
    "quicksort_parallel_log threshold max_depth arr1 left (i - 1) (depth + 1) = Some (arr2, evs1)"
    "quicksort_parallel_log threshold max_depth arr2 (i + 1) right (depth + 1) = Some (arr', evs2)"
    "evs = Pivot left right # Spawn left (i - 1) (depth + 1) # evs1 @ evs2"
proof -
  have ib: "in_bounds arr left right"
    using assms(1) quicksort_parallel_log_out_of_bounds [OF assms(2), of arr] by auto
  obtain arr1 i where part: "partition_step (choose_pivot arr left right) left right = (arr1, i)"
    by (cases "partition_step (choose_pivot arr left right) left right")
  from assms(1) quicksort_parallel_log_fork [OF assms(2) ib part]
  obtain arr2 evs1 evs2 where
    "quicksort_parallel_log threshold max_depth arr1 left (i - 1) (depth + 1) = Some (arr2, evs1)"
    "quicksort_parallel_log threshold max_depth arr2 (i + 1) right (depth + 1) = Some (arr', evs2)"
    "evs = Pivot left right # Spawn left (i - 1) (depth + 1) # evs1 @ evs2"
    by (auto split: option.splits)
  with ib part show ?thesis by (rule that)
qed

lemma quicksort_parallel_log_events:
  "quicksort_parallel_log threshold max_depth arr left right depth = Some (arr', evs) \<Longrightarrow>
   (\<forall>(l, r) \<in> set (pivot_ranges evs). l < r) \<and>
   (\<forall>d \<in> set (spawn_depths evs). depth < d \<and> d \<le> int max_depth) \<and>
   Suc (length (spawn_depths evs)) \<le> 2 ^ nat (int max_depth - depth)"
proof (induction threshold max_depth arr left right depth arbitrary: arr' evs
    rule: quicksort_parallel.induct)
  case (1 threshold max_depth arr left right depth)
  show ?case
  proof (cases "right - left \<le> int threshold \<or> depth \<ge> int max_depth")
    case True
    with "1.prems" obtain evs' where
      s: "quicksort_seq_log arr left right = Some (arr', evs')"
      and evs: "evs = Delegate left right depth # evs'"
      by (auto simp: quicksort_parallel_log_delegate split: option.splits)
    from quicksort_seq_log_events [OF s]
    have ev: "\<forall>e \<in> set evs'. \<exists>l r. e = Pivot l r \<and> l < r" by simp
    have "(\<forall>(l, r) \<in> set (pivot_ranges es). l < r) \<and> spawn_depths es = []"
      if "\<forall>e \<in> set es. \<exists>l r. e = Pivot l r \<and> l < r" for es
      using that by (induction es rule: pivot_ranges.induct) auto
    from this [OF ev] show ?thesis unfolding evs by simp
  next
    case False
    from "1.prems" False obtain arr1 i arr2 evs1 evs2 where
      ib: "in_bounds arr left right"
      and part: "partition_step (choose_pivot arr left right) left right = (arr1, i)"
      and l: "quicksort_parallel_log threshold max_depth arr1 left (i - 1) (depth + 1) = Some (arr2, evs1)"
      and r: "quicksort_parallel_log threshold max_depth arr2 (i + 1) right (depth + 1) = Some (arr', evs2)"
      and evs: "evs = Pivot left right # Spawn left (i - 1) (depth + 1) # evs1 @ evs2"
      by (rule quicksort_parallel_log_cases)
    have sl: "quicksort_parallel threshold max_depth arr1 left (i - 1) (depth + 1) = Some arr2"
      using quicksort_parallel_log_result [of threshold max_depth arr1 left "i - 1" "depth + 1"] l
      by simp
    from False have lt: "left < right" and d: "depth < int max_depth" by simp_all
    note ih1 = "1.IH"(1) [OF False _ refl part [symmetric] l]
    note ih2 = "1.IH"(2) [OF False _ refl part [symmetric] sl r]
    define k where "k = nat (int max_depth - (depth + 1))"
    have k: "nat (int max_depth - depth) = Suc k" using d by (simp add: k_def)
    from ih1 ih2 ib have c: "Suc (length (spawn_depths evs1)) \<le> 2 ^ k"
      "Suc (length (spawn_depths evs2)) \<le> 2 ^ k"
      by (simp_all add: k_def)
    have "Suc (length (spawn_depths evs)) \<le> 2 ^ nat (int max_depth - depth)"
      unfolding evs k using c by simp
    moreover have "\<forall>(l, r) \<in> set (pivot_ranges evs). l < r"
      using ih1 ih2 ib lt unfolding evs by auto
    moreover have "\<forall>d \<in> set (spawn_depths evs). depth < d \<and> d \<le> int max_depth"
      using ih1 ih2 ib d unfolding evs by auto
    ultimately show ?thesis by simp
  qed
qed


lemma pivot_ranges_set: "(l, r) \<in> set (pivot_ranges evs) \<longleftrightarrow> Pivot l r \<in> set evs"
  by (induction evs rule: pivot_ranges.induct) auto

section \<open>The two branches of a fork are independent\<close>

text \<open>
  A sort of \<open>[left, right]\<close> reads and writes the indices of \<open>[left, right]\<close> only:
  on two vectors that agree there it takes the same steps and leaves vectors that agree
  there (\<open>quicksort_parallel_local\<close>), and it leaves every other index as it was. So
  the task on \<open>[left, i - 1]\<close> and the inline branch on \<open>[i + 1, right]\<close> can run in
  either order, and the vector after the join is the same (\<open>branches_commute\<close>).
\<close>

lemma agree_on_swap:
  assumes "agree_on left right a b" "0 \<le> left" "right < int (length a)"
    and "left \<le> i" "i \<le> right" "left \<le> j" "j \<le> right"
  shows "agree_on left right (swap a i j) (swap b i j)"
proof -
  have len: "length a = length b" using assms(1) by (simp add: agree_on_def)
  have ba: "0 \<le> i" "i < int (length a)" "0 \<le> j" "j < int (length a)"
    using assms(2-7) by auto
  have bb: "0 \<le> i" "i < int (length b)" "0 \<le> j" "j < int (length b)"
    using ba len by auto
  have "swap a i j ! nat k = swap b i j ! nat k" if "left \<le> k" "k \<le> right" for k
  proof -
    have k0: "0 \<le> k" using that assms(2) by simp
    from assms(1) assms(4-7) that
    have "a ! nat i = b ! nat i" "a ! nat j = b ! nat j" "a ! nat k = b ! nat k"
      by (simp_all add: agree_on_def)
    then show ?thesis
      by (simp add: nth_swap [OF ba k0] nth_swap [OF bb k0])
  qed
  with len show ?thesis by (simp add: agree_on_def)
qed

lemma agree_on_nth: "agree_on left right a b \<Longrightarrow> left \<le> k \<Longrightarrow> k \<le> right \<Longrightarrow> a ! nat k = b ! nat k"
  by (simp add: agree_on_def)

lemma choose_pivot_local:
  assumes "in_bounds a left right" "left \<le> right" "agree_on left right a b"
  shows "agree_on left right (choose_pivot a left right) (choose_pivot b left right)"
proof -
  define mid where "mid = left + (right - left) div 2"
  have mid: "left \<le> mid" "mid \<le> right" using assms(2) by (auto simp: mid_def)
  have bd: "0 \<le> left" "right < int (length a)" using assms(1) by (auto simp: in_bounds_def)
  define a1 where "a1 = (if a ! nat mid < a ! nat left then swap a left mid else a)"
  define b1 where "b1 = (if b ! nat mid < b ! nat left then swap b left mid else b)"
  define a2 where "a2 = (if a1 ! nat right < a1 ! nat left then swap a1 left right else a1)"
  define b2 where "b2 = (if b1 ! nat right < b1 ! nat left then swap b1 left right else b1)"
  define a3 where "a3 = (if a2 ! nat mid < a2 ! nat right then swap a2 mid right else a2)"
  define b3 where "b3 = (if b2 ! nat mid < b2 ! nat right then swap b2 mid right else b2)"
  have c0: "a ! nat mid = b ! nat mid" "a ! nat left = b ! nat left"
    using assms(2,3) mid by (simp_all add: agree_on_nth)
  have g1: "agree_on left right a1 b1"
    unfolding a1_def b1_def using c0 assms(2,3) mid bd by (simp add: agree_on_swap)
  have l1: "length a1 = length a" by (simp add: a1_def)
  have c1: "a1 ! nat right = b1 ! nat right" "a1 ! nat left = b1 ! nat left"
    using g1 assms(2) by (simp_all add: agree_on_nth)
  have g2: "agree_on left right a2 b2"
    unfolding a2_def b2_def using c1 g1 assms(2) bd l1 by (simp add: agree_on_swap)
  have l2: "length a2 = length a" by (simp add: a2_def l1)
  have c2: "a2 ! nat mid = b2 ! nat mid" "a2 ! nat right = b2 ! nat right"
    using g2 assms(2) mid by (simp_all add: agree_on_nth)
  have g3: "agree_on left right a3 b3"
    unfolding a3_def b3_def using c2 g2 assms(2) mid bd l2 by (simp add: agree_on_swap)
  have "choose_pivot a left right = a3" "choose_pivot b left right = b3"
    by (simp_all add: choose_pivot_def Let_def mid_def a1_def a2_def a3_def b1_def b2_def b3_def)
  with g3 show ?thesis by simp
qed

lemma partition_loop_local:
  assumes "0 \<le> left" "right < int (length a)" "left \<le> j" "left - 1 \<le> i" "i < j" "j \<le> right"
    and "agree_on left right a b"
  shows "snd (partition_loop pivot right a i j) = snd (partition_loop pivot right b i j) \<and>
    agree_on left right (fst (partition_loop pivot right a i j)) (fst (partition_loop pivot right b i j))"
  using assms
proof (induction pivot right a i j arbitrary: b rule: partition_loop.induct)
  case (1 pivot right a i j)
  show ?case
  proof (cases "j < right")
    case False
    with "1.prems"(7) show ?thesis by (simp add: partition_loop_stop)
  next
    case True
    have same: "a ! nat j = b ! nat j"
      using "1.prems"(3,7) True by (simp add: agree_on_nth)
    show ?thesis
    proof (cases "a ! nat j \<le> pivot")
      case le: True
      have "agree_on left right (swap a (i + 1) j) (swap b (i + 1) j)"
        using "1.prems" True by (intro agree_on_swap) auto
      from "1.IH"(1) [OF True le "1.prems"(1) _ _ _ _ _ this] "1.prems" True
      show ?thesis
        using le same by (simp add: partition_loop_le)
    next
      case gt: False
      from "1.IH"(2) [OF True gt "1.prems"(1,2) _ _ _ _ "1.prems"(7)] "1.prems" True
      show ?thesis
        using gt same by (simp add: partition_loop_gt)
    qed
  qed
qed

lemma partition_step_local:
  assumes "in_bounds a left right" "left \<le> right" "agree_on left right a b"
  shows "snd (partition_step a left right) = snd (partition_step b left right) \<and>
    agree_on left right (fst (partition_step a left right)) (fst (partition_step b left right))"
proof -
  have bd: "0 \<le> left" "right < int (length a)" using assms(1) by (auto simp: in_bounds_def)
  have p: "a ! nat right = b ! nat right" using assms(2,3) by (simp add: agree_on_nth)
  obtain a1 i1 where ra: "partition_loop (a ! nat right) right a (left - 1) left = (a1, i1)"
    by (cases "partition_loop (a ! nat right) right a (left - 1) left")
  obtain b1 i2 where rb: "partition_loop (a ! nat right) right b (left - 1) left = (b1, i2)"
    by (cases "partition_loop (a ! nat right) right b (left - 1) left")
  from partition_loop_local [OF bd _ _ _ assms(2,3), of "left - 1" "a ! nat right"] ra rb
  have eq: "i1 = i2" "agree_on left right a1 b1" by simp_all
  from partition_loop_index [of "left - 1" left right "a ! nat right" a] ra assms(2)
  have i1: "left - 1 \<le> i1" "i1 < right" by simp_all
  have len: "length a1 = length a"
    using partition_loop_correct [OF bd _ _ assms(2) _ _ ra] by (simp add: permuted_within_def)
  have "agree_on left right (swap a1 (i1 + 1) right) (swap b1 (i1 + 1) right)"
    using eq(2) bd i1 assms(2) len by (intro agree_on_swap) auto
  with ra rb eq(1) p show ?thesis
    by (simp add: partition_step_def Let_def)
qed


lemma agree_on_mono:
  "agree_on left right a b \<Longrightarrow> left \<le> left' \<Longrightarrow> right' \<le> right \<Longrightarrow> agree_on left' right' a b"
  by (simp add: agree_on_def)

lemma agree_on_combine:
  assumes "agree_on left right a1 b1"
    and "permuted_within left' right' a1 a2" "permuted_within left' right' b1 b2"
    and "agree_on left' right' a2 b2" "0 \<le> left" "right < int (length a1)"
  shows "agree_on left right a2 b2"
proof -
  have len: "length a1 = length b1" "length a2 = length a1" "length b2 = length b1"
    using assms(1-3) by (simp_all add: agree_on_def permuted_within_def)
  have "a2 ! nat k = b2 ! nat k" if k: "left \<le> k" "k \<le> right" for k
  proof (cases "left' \<le> k \<and> k \<le> right'")
    case True
    with assms(4) show ?thesis by (simp add: agree_on_nth)
  next
    case False
    with k assms(5,6) have out: "0 \<le> k \<and> k < int (length a1) \<and> (k < left' \<or> right' < k)"
      by auto
    then have "a2 ! nat k = a1 ! nat k" using assms(2) by (simp add: permuted_within_def)
    moreover have "b2 ! nat k = b1 ! nat k"
      using assms(3) out len(1) by (simp add: permuted_within_def)
    moreover have "a1 ! nat k = b1 ! nat k" using assms(1) k by (simp add: agree_on_nth)
    ultimately show ?thesis by simp
  qed
  with len show ?thesis by (simp add: agree_on_def)
qed

lemma sort_step_local:
  assumes ib: "in_bounds a left right" and lt: "left < right" and ag: "agree_on left right a b"
    and part: "partition_step (choose_pivot a left right) left right = (a1, i)"
  obtains b1 where "partition_step (choose_pivot b left right) left right = (b1, i)"
    and "in_bounds b left right" and "agree_on left right a1 b1"
proof -
  have le: "left \<le> right" using lt by simp
  have len: "length a = length b" using ag by (simp add: agree_on_def)
  then have ibb: "in_bounds b left right" using ib by (simp add: in_bounds_def)
  have p0: "permuted_within left right a (choose_pivot a left right)"
    using ib le by (rule choose_pivot_permuted)
  then have ib0: "in_bounds (choose_pivot a left right) left right"
    using ib by (simp add: in_bounds_def permuted_within_def)
  have "agree_on left right (choose_pivot a left right) (choose_pivot b left right)"
    using ib le ag by (rule choose_pivot_local)
  from partition_step_local [OF ib0 le this] part
  have "snd (partition_step (choose_pivot b left right) left right) = i"
    and "agree_on left right a1 (fst (partition_step (choose_pivot b left right) left right))"
    by simp_all
  then have "partition_step (choose_pivot b left right) left right =
      (fst (partition_step (choose_pivot b left right) left right), i)"
    and "agree_on left right a1 (fst (partition_step (choose_pivot b left right) left right))"
    by (simp_all add: prod_eq_iff)
  with ibb show ?thesis using that by blast
qed

lemma quicksort_seq_local:
  "in_bounds a left right \<or> right \<le> left \<Longrightarrow> agree_on left right a b \<Longrightarrow>
   \<exists>a' b'. quicksort_seq a left right = Some a' \<and> quicksort_seq b left right = Some b' \<and>
     permuted_within left right a a' \<and> permuted_within left right b b' \<and>
     agree_on left right a' b'"
proof (induction a left right arbitrary: b rule: quicksort_seq.induct)
  case (1 a left right)
  show ?case
  proof (cases "right \<le> left")
    case True
    with "1.prems"(2) show ?thesis
      by (simp add: quicksort_seq_base permuted_within_refl)
  next
    case False
    then have lt: "left < right" by simp
    with "1.prems" have ib: "in_bounds a left right" by simp
    then have bd: "0 \<le> left" "right < int (length a)" by (simp_all add: in_bounds_def)
    obtain a1 i where part: "partition_step (choose_pivot a left right) left right = (a1, i)"
      by (cases "partition_step (choose_pivot a left right) left right")
    from ib lt "1.prems"(2) part obtain b1 where
      partb: "partition_step (choose_pivot b left right) left right = (b1, i)"
      and ibb: "in_bounds b left right" and ag1: "agree_on left right a1 b1"
      by (rule sort_step_local)
    note sub = sub_ranges_in_bounds [OF ib lt part]
    have len1: "length a1 = length a" using sub(1) ib sub(3,4)
      using partition_step_correct(1) [of "choose_pivot a left right" left right a1 i]
        choose_pivot_permuted [of a left right] lt part
      by (simp add: permuted_within_def in_bounds_def)
    have "agree_on left (i - 1) a1 b1" using ag1 sub(4) by (auto intro: agree_on_mono)
    from "1.IH"(1) [OF False _ refl part [symmetric] _ this] ib sub(1)
    obtain a2 b2 where l: "quicksort_seq a1 left (i - 1) = Some a2"
      "quicksort_seq b1 left (i - 1) = Some b2"
      "permuted_within left (i - 1) a1 a2" "permuted_within left (i - 1) b1 b2"
      "agree_on left (i - 1) a2 b2"
      by auto
    have ag2: "agree_on left right a2 b2"
      using agree_on_combine [OF ag1 l(3,4,5)] bd len1 by simp
    have len2: "length a2 = length a" using l(3) len1 by (simp add: permuted_within_def)
    have "agree_on (i + 1) right a2 b2" using ag2 sub(3) by (auto intro: agree_on_mono)
    from "1.IH"(2) [OF False _ refl part [symmetric] l(1) _ this] ib sub(2) [OF l(3)]
    obtain a3 b3 where r: "quicksort_seq a2 (i + 1) right = Some a3"
      "quicksort_seq b2 (i + 1) right = Some b3"
      "permuted_within (i + 1) right a2 a3" "permuted_within (i + 1) right b2 b3"
      "agree_on (i + 1) right a3 b3"
      by auto
    have ag3: "agree_on left right a3 b3"
      using agree_on_combine [OF ag2 r(3,4,5)] bd len2 by simp
    have ra: "quicksort_seq a left right = Some a3"
      using quicksort_seq_rec [OF lt ib part] l(1) r(1) by simp
    have rb: "quicksort_seq b left right = Some b3"
      using quicksort_seq_rec [OF lt ibb partb] l(2) r(2) by simp
    from quicksort_seq_correct [of a left right] quicksort_seq_correct [of b left right]
      ib ibb ra rb ag3
    show ?thesis by auto
  qed
qed

lemma quicksort_parallel_local:
  "in_bounds a left right \<or> right \<le> left \<Longrightarrow> agree_on left right a b \<Longrightarrow>
   \<exists>a' b'. quicksort_parallel threshold max_depth a left right depth = Some a' \<and>
     quicksort_parallel threshold max_depth b left right depth = Some b' \<and>
     permuted_within left right a a' \<and> permuted_within left right b b' \<and>
     agree_on left right a' b'"
proof (induction threshold max_depth a left right depth arbitrary: b
    rule: quicksort_parallel.induct)
  case (1 threshold max_depth a left right depth)
  show ?case
  proof (cases "right - left \<le> int threshold \<or> depth \<ge> int max_depth")
    case True
    with quicksort_seq_local [OF "1.prems"] show ?thesis
      by (simp add: quicksort_parallel_delegate)
  next
    case False
    then have lt: "left < right" by simp
    with "1.prems" have ib: "in_bounds a left right" by simp
    then have bd: "0 \<le> left" "right < int (length a)" by (simp_all add: in_bounds_def)
    obtain a1 i where part: "partition_step (choose_pivot a left right) left right = (a1, i)"
      by (cases "partition_step (choose_pivot a left right) left right")
    from ib lt "1.prems"(2) part obtain b1 where
      partb: "partition_step (choose_pivot b left right) left right = (b1, i)"
      and ibb: "in_bounds b left right" and ag1: "agree_on left right a1 b1"
      by (rule sort_step_local)
    note sub = sub_ranges_in_bounds [OF ib lt part]
    have len1: "length a1 = length a" using sub(1) ib sub(3,4)
      using partition_step_correct(1) [of "choose_pivot a left right" left right a1 i]
        choose_pivot_permuted [of a left right] lt part
      by (simp add: permuted_within_def in_bounds_def)
    have "agree_on left (i - 1) a1 b1" using ag1 sub(4) by (auto intro: agree_on_mono)
    from "1.IH"(1) [OF False _ refl part [symmetric] _ this] ib sub(1)
    obtain a2 b2 where l: "quicksort_parallel threshold max_depth a1 left (i - 1) (depth + 1) = Some a2"
      "quicksort_parallel threshold max_depth b1 left (i - 1) (depth + 1) = Some b2"
      "permuted_within left (i - 1) a1 a2" "permuted_within left (i - 1) b1 b2"
      "agree_on left (i - 1) a2 b2"
      by auto
    have ag2: "agree_on left right a2 b2"
      using agree_on_combine [OF ag1 l(3,4,5)] bd len1 by simp
    have len2: "length a2 = length a" using l(3) len1 by (simp add: permuted_within_def)
    have "agree_on (i + 1) right a2 b2" using ag2 sub(3) by (auto intro: agree_on_mono)
    from "1.IH"(2) [OF False _ refl part [symmetric] l(1) _ this] ib sub(2) [OF l(3)]
    obtain a3 b3 where r: "quicksort_parallel threshold max_depth a2 (i + 1) right (depth + 1) = Some a3"
      "quicksort_parallel threshold max_depth b2 (i + 1) right (depth + 1) = Some b3"
      "permuted_within (i + 1) right a2 a3" "permuted_within (i + 1) right b2 b3"
      "agree_on (i + 1) right a3 b3"
      by auto
    have ag3: "agree_on left right a3 b3"
      using agree_on_combine [OF ag2 r(3,4,5)] bd len2 by simp
    have ra: "quicksort_parallel threshold max_depth a left right depth = Some a3"
      using quicksort_parallel_fork [OF False ib part] l(1) r(1) by simp
    have rb: "quicksort_parallel threshold max_depth b left right depth = Some b3"
      using quicksort_parallel_fork [OF False ibb partb] l(2) r(2) by simp
    from quicksort_parallel_correct [of a left right threshold max_depth depth]
      quicksort_parallel_correct [of b left right threshold max_depth depth]
      ib ibb ra rb ag3
    show ?thesis by auto
  qed
qed

lemma branches_commute:
  assumes ib: "in_bounds arr left right" and i: "left \<le> i" "i \<le> right"
  shows "\<exists>a2 a3 b2.
    quicksort_parallel threshold max_depth arr left (i - 1) depth = Some a2 \<and>
    quicksort_parallel threshold max_depth a2 (i + 1) right depth = Some a3 \<and>
    quicksort_parallel threshold max_depth arr (i + 1) right depth = Some b2 \<and>
    quicksort_parallel threshold max_depth b2 left (i - 1) depth = Some a3"
proof -
  have bd: "0 \<le> left" "right < int (length arr)" using ib by (simp_all add: in_bounds_def)
  have ibl: "in_bounds arr left (i - 1)" and ibr: "in_bounds arr (i + 1) right"
    using bd i by (simp_all add: in_bounds_def)
  from quicksort_parallel_correct [of arr left "i - 1" threshold max_depth depth] ibl
  obtain a2 where a2: "quicksort_parallel threshold max_depth arr left (i - 1) depth = Some a2"
    "permuted_within left (i - 1) arr a2" by blast
  from quicksort_parallel_correct [of arr "i + 1" right threshold max_depth depth] ibr
  obtain b2 where b2: "quicksort_parallel threshold max_depth arr (i + 1) right depth = Some b2"
    "permuted_within (i + 1) right arr b2" by blast
  have len: "length a2 = length arr" "length b2 = length arr"
    using a2(2) b2(2) by (simp_all add: permuted_within_def)
  have "agree_on (i + 1) right arr a2"
    using a2(2) bd i by (simp add: agree_on_def permuted_within_def)
  from quicksort_parallel_local [OF _ this, of threshold max_depth depth] ibr b2(1)
  obtain a3 where a3: "quicksort_parallel threshold max_depth a2 (i + 1) right depth = Some a3"
    "permuted_within (i + 1) right a2 a3" "agree_on (i + 1) right b2 a3" by auto
  have "agree_on left (i - 1) arr b2"
    using b2(2) bd i by (simp add: agree_on_def permuted_within_def)
  from quicksort_parallel_local [OF _ this, of threshold max_depth depth] ibl a2(1)
  obtain b3 where b3: "quicksort_parallel threshold max_depth b2 left (i - 1) depth = Some b3"
    "permuted_within left (i - 1) b2 b3" "agree_on left (i - 1) a2 b3" by auto
  have len3: "length a3 = length arr" "length b3 = length arr"
    using a3(2) b3(2) len by (simp_all add: permuted_within_def)
  have "b3 = a3"
  proof (rule nth_equalityI)
    show "length b3 = length a3" using len3 by simp
  next
    fix n assume "n < length b3"
    then have n: "0 \<le> int n" "int n < int (length arr)" using len3 by simp_all
    have a: "a3 ! nat k = a2 ! nat k" if "0 \<le> k" "k < int (length arr)" "k < i + 1 \<or> right < k" for k
      using a3(2) that len by (simp add: permuted_within_def)
    have b: "b3 ! nat k = b2 ! nat k" if "0 \<le> k" "k < int (length arr)" "k < left \<or> i - 1 < k" for k
      using b3(2) that len by (simp add: permuted_within_def)
    have a': "a2 ! nat k = arr ! nat k" if "0 \<le> k" "k < int (length arr)" "k < left \<or> i - 1 < k" for k
      using a2(2) that by (simp add: permuted_within_def)
    have b': "b2 ! nat k = arr ! nat k" if "0 \<le> k" "k < int (length arr)" "k < i + 1 \<or> right < k" for k
      using b2(2) that by (simp add: permuted_within_def)
    consider "int n < left \<or> right < int n \<or> int n = i" | "left \<le> int n" "int n \<le> i - 1"
      | "i + 1 \<le> int n" "int n \<le> right"
      by linarith
    then have "b3 ! nat (int n) = a3 ! nat (int n)"
    proof cases
      case 1
      with i have o: "int n < left \<or> i - 1 < int n" "int n < i + 1 \<or> right < int n"
        by auto
      show ?thesis using a [OF n o(2)] b [OF n o(1)] a' [OF n o(1)] b' [OF n o(2)] by simp
    next
      case 2
      then have "a3 ! nat (int n) = a2 ! nat (int n)" using a [OF n] by simp
      moreover have "a2 ! nat (int n) = b3 ! nat (int n)"
        using agree_on_nth [OF b3(3), of "int n"] 2 by simp
      ultimately show ?thesis by simp
    next
      case 3
      then have "b3 ! nat (int n) = b2 ! nat (int n)" using b [OF n] by simp
      moreover have "b2 ! nat (int n) = a3 ! nat (int n)"
        using agree_on_nth [OF a3(3), of "int n"] 3 by simp
      ultimately show ?thesis by simp
    qed
    then show "b3 ! n = a3 ! n" by simp
  qed
  with a2(1) a3(1) b2(1) b3(1) show ?thesis by simp
qed

section \<open>Functional correctness of the sorts\<close>

text \<open>
  Claim C1. For every vector of fewer than \<open>2 ^ 31\<close> elements (so that the full range
  \<open>[0, n - 1]\<close> can be passed in the \<^verbatim>\<open>int\<close> parameters: the narrowing of line 142
  keeps \<open>n - 1\<close>), every linearly ordered element type and every configuration of
  non-negative \<open>threshold\<close> and \<open>max_depth\<close>, \<^verbatim>\<open>quicksort_parallel\<close> called on the
  full range returns, and the vector it leaves is a permutation of the input in
  non-decreasing order.
\<close>

theorem parallelSort_sorts:
  assumes "length arr < 2 ^ 31"
  shows "narrow_int (int (length arr) - 1) = int (length arr) - 1 \<and>
    (\<exists>arr'. parallelSort threshold max_depth arr = Some arr' \<and>
       mset arr' = mset arr \<and> sorted arr')"
proof -
  from assms have "int (length arr) < int (2 ^ 31)" by (simp only: of_nat_less_iff)
  then have b: "int (length arr) < 2 ^ 31" by simp
  have "(int (length arr) - 1 + 2 ^ 31) mod 2 ^ 32 = int (length arr) - 1 + 2 ^ 31"
    using b by (intro mod_pos_pos_trivial) simp_all
  then have n: "narrow_int (int (length arr) - 1) = int (length arr) - 1"
    by (simp add: narrow_int_def)
  have "in_bounds arr 0 (int (length arr) - 1)" by (simp add: in_bounds_def)
  then obtain arr' where
    res: "quicksort_parallel threshold max_depth arr 0 (int (length arr) - 1) 0 = Some arr'"
      "permuted_within 0 (int (length arr) - 1) arr arr'"
      "sorted_range arr' 0 (int (length arr) - 1)"
    using quicksort_parallel_correct [of arr 0 "int (length arr) - 1" threshold max_depth 0]
    by blast
  from res(2) have "length arr' = length arr" "mset arr' = mset arr"
    by (simp_all add: permuted_within_def)
  with res(1,3) sorted_range_full [of arr'] n show ?thesis
    by (simp add: parallelSort_def)
qed

theorem parallelSort_sorts_witness:
  "length [3, 1, 2, 1, 5, 4 :: int] < 2 ^ 31 \<and>
   narrow_int (int (length [3, 1, 2, 1, 5, 4 :: int]) - 1) = int (length [3, 1, 2, 1, 5, 4 :: int]) - 1 \<and>
   (\<exists>arr'. parallelSort 2 1 [3, 1, 2, 1, 5, 4 :: int] = Some arr' \<and>
      mset arr' = mset [3, 1, 2, 1, 5, 4] \<and> sorted arr')"
proof -
  have h: "length [3, 1, 2, 1, 5, 4 :: int] < 2 ^ 31" by simp
  from parallelSort_sorts [OF h, of 2 1] h show ?thesis by blast
qed

text \<open>
  Claim C2. On a range \<open>[left, right]\<close> of at least two elements inside the vector, once
  pivot selection has put the pivot at index \<open>right\<close>, the partition step returns an
  index \<open>i\<close> of the range with the pivot value at \<open>i\<close>, every element at an index of
  \<open>[left, i - 1]\<close> at most the pivot, every element at an index of \<open>[i + 1, right]\<close> at
  least the pivot, and every element outside \<open>[left, right]\<close> where it was.
\<close>

theorem partition_invariant:
  assumes "in_bounds arr left right" and "left < right"
    and "partition_step (choose_pivot arr left right) left right = (arr', i)"
  shows "left \<le> i \<and> i \<le> right \<and>
    arr' ! nat i = choose_pivot arr left right ! nat right \<and>
    (\<forall>k. left \<le> k \<and> k \<le> i - 1 \<longrightarrow> arr' ! nat k \<le> choose_pivot arr left right ! nat right) \<and>
    (\<forall>k. i + 1 \<le> k \<and> k \<le> right \<longrightarrow> choose_pivot arr left right ! nat right \<le> arr' ! nat k) \<and>
    length arr' = length arr \<and>
    (\<forall>k. 0 \<le> k \<and> k < int (length arr) \<and> (k < left \<or> right < k) \<longrightarrow>
       arr' ! nat k = choose_pivot arr left right ! nat k)"
proof -
  have p0: "permuted_within left right arr (choose_pivot arr left right)"
    using assms(1,2) by (intro choose_pivot_permuted) auto
  then have len0: "length (choose_pivot arr left right) = length arr"
    by (simp add: permuted_within_def)
  then have b0: "in_bounds (choose_pivot arr left right) left right"
    using assms(1) by (simp add: in_bounds_def)
  have le: "left \<le> right" using assms(2) by simp
  note ps = partition_step_correct [OF b0 le assms(3)]
  from ps(1) len0 have "length arr' = length arr"
    and "\<forall>k. 0 \<le> k \<and> k < int (length arr) \<and> (k < left \<or> right < k) \<longrightarrow>
       arr' ! nat k = choose_pivot arr left right ! nat k"
    by (simp_all add: permuted_within_def)
  with ps(2-6) show ?thesis by simp
qed

theorem partition_invariant_witness:
  "in_bounds [5, 3, 8, 1, 9, 2 :: int] 0 5 \<and> (0 :: int) < 5 \<and>
   partition_step (choose_pivot [5, 3, 8, 1, 9, 2 :: int] 0 5) 0 5 = ([2, 3, 1, 5, 9, 8], 3) \<and>
   (0 :: int) \<le> 3 \<and> (3 :: int) \<le> 5 \<and>
   [2, 3, 1, 5, 9, 8 :: int] ! nat 3 = choose_pivot [5, 3, 8, 1, 9, 2] 0 5 ! nat 5 \<and>
   length [2, 3, 1, 5, 9, 8 :: int] = length [5, 3, 8, 1, 9, 2 :: int]"
proof -
  have h1: "in_bounds [5, 3, 8, 1, 9, 2 :: int] 0 5" by (simp add: in_bounds_def)
  have h2: "(0 :: int) < 5" by simp
  have h3: "partition_step (choose_pivot [5, 3, 8, 1, 9, 2 :: int] 0 5) 0 5 = ([2, 3, 1, 5, 9, 8], 3)"
    by code_simp
  from partition_invariant [OF h1 h2 h3] h1 h2 h3 show ?thesis by blast
qed

text \<open>
  Claim C5. On a vector of at most \<open>threshold\<close> elements the parallel sort and the
  sequential sort on the full range give the same result, and on a vector of no or one
  element both return it unchanged.
\<close>

theorem small_input_sequential:
  "(length arr \<le> threshold \<longrightarrow>
      parallelSort threshold max_depth arr = quicksort_seq arr 0 (int (length arr) - 1)) \<and>
   (length arr \<le> 1 \<longrightarrow>
      parallelSort threshold max_depth arr = Some arr \<and>
      quicksort_seq arr 0 (int (length arr) - 1) = Some arr)"
proof (intro conjI impI)
  assume "length arr \<le> threshold"
  then show "parallelSort threshold max_depth arr = quicksort_seq arr 0 (int (length arr) - 1)"
    by (simp add: parallelSort_def quicksort_parallel_delegate)
next
  assume "length arr \<le> 1"
  then show "parallelSort threshold max_depth arr = Some arr"
    by (simp add: parallelSort_def quicksort_parallel_delegate quicksort_seq_base)
next
  assume "length arr \<le> 1"
  then show "quicksort_seq arr 0 (int (length arr) - 1) = Some arr"
    by (simp add: quicksort_seq_base)
qed

theorem small_input_sequential_witness:
  "length [2, 1, 3 :: int] \<le> 3 \<and>
   parallelSort 3 4 [2, 1, 3 :: int] = quicksort_seq [2, 1, 3] 0 (int (length [2, 1, 3 :: int]) - 1) \<and>
   length [7 :: int] \<le> 1 \<and> parallelSort 0 4 [7 :: int] = Some [7] \<and>
   length ([] :: int list) \<le> 1 \<and> parallelSort 0 4 ([] :: int list) = Some []"
  using small_input_sequential [of "[2, 1, 3 :: int]" 3 4]
    small_input_sequential [of "[7 :: int]" 0 4]
    small_input_sequential [of "[] :: int list" 0 4]
  by simp

text \<open>
  Claim C8. Scenario A: with \<open>threshold = 0\<close> and \<open>max_depth = 4\<close> the parallel sort
  turns \<open>[5, 3, 8, 1, 9, 2]\<close> into \<open>[1, 2, 3, 5, 8, 9]\<close>; so it does with the two
  constants of the source.
\<close>

theorem scenario_A:
  "parallelSort 0 4 [5, 3, 8, 1, 9, 2 :: int] = Some [1, 2, 3, 5, 8, 9] \<and>
   parallelSort SEQUENTIAL_THRESHOLD MAX_DEPTH [5, 3, 8, 1, 9, 2 :: int] = Some [1, 2, 3, 5, 8, 9]"
  by code_simp

section \<open>Termination of the sequential sort\<close>

text \<open>
  Claim C10. \<^verbatim>\<open>quicksort_seq\<close> is a total function: its recursion is accepted with the
  measure \<open>right - left\<close>. A call with \<open>left > right\<close> returns the vector as it is; in a
  frame with \<open>left < right\<close> the partition index \<open>i\<close> lies in \<open>[left, right]\<close>, so that
  \<open>[left, i - 1]\<close> and \<open>[i + 1, right]\<close> are strictly narrower than \<open>[left, right]\<close>;
  and on every range inside the vector the sort returns a vector after at most
  \<open>right - left\<close> frames that select a pivot.
\<close>

theorem quicksort_seq_terminates:
  "(right < left \<longrightarrow> quicksort_seq arr left right = Some arr) \<and>
   (in_bounds arr left right \<and> left < right \<longrightarrow>
      (\<exists>arr1 i. partition_step (choose_pivot arr left right) left right = (arr1, i) \<and>
         left \<le> i \<and> i \<le> right \<and>
         (i - 1) - left < right - left \<and> right - (i + 1) < right - left)) \<and>
   (in_bounds arr left right \<longrightarrow>
      (\<exists>arr' evs. quicksort_seq_log arr left right = Some (arr', evs) \<and>
         quicksort_seq arr left right = Some arr' \<and>
         int (length evs) \<le> max 0 (right - left)))"
proof (intro conjI impI)
  assume "right < left"
  then show "quicksort_seq arr left right = Some arr"
    by (simp add: quicksort_seq_base)
next
  assume h: "in_bounds arr left right \<and> left < right"
  obtain arr1 i where part: "partition_step (choose_pivot arr left right) left right = (arr1, i)"
    by (cases "partition_step (choose_pivot arr left right) left right")
  from sub_ranges_in_bounds(3,4) [OF _ _ part] h have "left \<le> i" "i \<le> right" by simp_all
  with part show "\<exists>arr1 i. partition_step (choose_pivot arr left right) left right = (arr1, i) \<and>
         left \<le> i \<and> i \<le> right \<and>
         (i - 1) - left < right - left \<and> right - (i + 1) < right - left"
    by simp
next
  assume ib: "in_bounds arr left right"
  then obtain arr' where s: "quicksort_seq arr left right = Some arr'"
    using quicksort_seq_correct [of arr left right] by blast
  with quicksort_seq_log_result [of arr left right]
  obtain evs where l: "quicksort_seq_log arr left right = Some (arr', evs)"
    by auto
  from quicksort_seq_log_events [OF l] s l
  show "\<exists>arr' evs. quicksort_seq_log arr left right = Some (arr', evs) \<and>
         quicksort_seq arr left right = Some arr' \<and>
         int (length evs) \<le> max 0 (right - left)"
    by simp
qed

theorem quicksort_seq_terminates_witness:
  "(0 :: int) < 3 \<and> quicksort_seq [1, 2 :: int] 3 0 = Some [1, 2] \<and>
   in_bounds [7, 7, 7, 7, 7 :: int] 0 4 \<and> (0 :: int) < 4 \<and>
   (\<exists>arr1 i. partition_step (choose_pivot [7, 7, 7, 7, 7 :: int] 0 4) 0 4 = (arr1, i) \<and>
      0 \<le> i \<and> i \<le> 4 \<and> (i - 1) - 0 < 4 - 0 \<and> 4 - (i + 1) < 4 - 0) \<and>
   (\<exists>arr' evs. quicksort_seq_log [7, 7, 7, 7, 7 :: int] 0 4 = Some (arr', evs) \<and>
      quicksort_seq [7, 7, 7, 7, 7 :: int] 0 4 = Some arr' \<and>
      int (length evs) \<le> max 0 (4 - 0))"
proof -
  have h: "in_bounds [7, 7, 7, 7, 7 :: int] 0 4" by (simp add: in_bounds_def)
  from quicksort_seq_terminates [of 0 3 "[1, 2 :: int]"]
    quicksort_seq_terminates [of 4 0 "[7, 7, 7, 7, 7 :: int]"] h
  show ?thesis by simp
qed

section \<open>Cost of the partition step\<close>

text \<open>
  Claim C6, as amended. On a range \<open>[left, right]\<close> with \<open>left < right\<close> inside the
  vector the partition step (the scan and the final placement of the pivot) tests exactly
  \<open>right - left\<close> elements against the pivot and calls \<^verbatim>\<open>std::swap\<close> at most
  \<open>right - left + 1\<close> times: at most \<open>right - left\<close> times in the scan and once for the
  pivot. At most \<open>right - left\<close> of these calls exchange two different positions.
\<close>

theorem partition_cost:
  assumes "in_bounds arr left right" and "left < right"
    and "partition_step_ops arr left right = (res, ops)"
  shows "res = partition_step arr left right \<and>
    length (filter is_Compare ops) = nat (right - left) \<and>
    length (filter is_Swap ops) \<le> nat (right - left) + 1 \<and>
    length (filter exchanges ops) \<le> nat (right - left)"
proof -
  have le: "left \<le> right" using assms(2) by simp
  from partition_step_ops_result [of arr left right] assms(3)
  have "res = partition_step arr left right" by simp
  with partition_step_ops_count [OF le assms(3)] show ?thesis by simp
qed

theorem partition_cost_witness:
  "in_bounds [1, 3, 2 :: int] 0 2 \<and> (0 :: int) < 2 \<and>
   partition_step_ops [1, 3, 2 :: int] 0 2 = (([1, 2, 3], 1), [Compare 0, Swap 0 0, Compare 1, Swap 1 2]) \<and>
   ([1, 2, 3 :: int], 1 :: int) = partition_step [1, 3, 2] 0 2 \<and>
   length (filter is_Compare [Compare 0, Swap 0 0, Compare 1, Swap 1 2]) = nat (2 - 0) \<and>
   length (filter is_Swap [Compare 0, Swap 0 0, Compare 1, Swap 1 2]) \<le> nat (2 - 0) + 1 \<and>
   length (filter exchanges [Compare 0, Swap 0 0, Compare 1, Swap 1 2]) \<le> nat (2 - 0)"
proof -
  have h1: "in_bounds [1, 3, 2 :: int] 0 2" by (simp add: in_bounds_def)
  have h2: "(0 :: int) < 2" by simp
  have h3: "partition_step_ops [1, 3, 2 :: int] 0 2 =
      (([1, 2, 3], 1), [Compare 0, Swap 0 0, Compare 1, Swap 1 2])"
    by code_simp
  from partition_cost [OF h1 h2 h3] h1 h2 h3 show ?thesis by blast
qed

text \<open>
  The bound of \<open>right - left\<close> swaps of the claim as stated fails where no element is
  greater than the pivot: on \<open>[7, 7]\<close>, which pivot selection leaves as it is, the step
  calls \<^verbatim>\<open>std::swap\<close> twice, once in the scan and once for the pivot.
\<close>

theorem partition_cost_counterexample:
  "in_bounds [7, 7 :: int] 0 1 \<and> (0 :: int) < 1 \<and> choose_pivot [7, 7 :: int] 0 1 = [7, 7] \<and>
   partition_step_ops [7, 7 :: int] 0 1 = (([7, 7], 1), [Compare 0, Swap 0 0, Swap 1 1]) \<and>
   \<not> length (filter is_Swap [Compare 0, Swap 0 0, Swap 1 1]) \<le> nat (1 - 0)"
  by code_simp

section \<open>Where a pivot is selected\<close>

text \<open>
  Claim C7, as amended. Pivot selection runs only on ranges with \<open>right - left \<ge> 1\<close>,
  that is on at least two elements, in the sequential and in the parallel sort, and the
  sequential sort runs it on every such range it is called on; a range of at most one
  element (\<open>left \<ge> right\<close>) returns at once from the base case, with no pivot selected
  and the vector as it was.
\<close>

theorem pivot_selection_ranges:
  "(quicksort_seq_log arr left right = Some (arr', evs) \<longrightarrow>
      (\<forall>(l, r) \<in> set (pivot_ranges evs). 1 \<le> r - l) \<and>
      (left < right \<longrightarrow> (left, right) \<in> set (pivot_ranges evs)) \<and>
      (right \<le> left \<longrightarrow> arr' = arr \<and> evs = [])) \<and>
   (quicksort_parallel_log threshold max_depth arr left right depth = Some (arr'', evs') \<longrightarrow>
      (\<forall>(l, r) \<in> set (pivot_ranges evs'). 1 \<le> r - l))"
proof (intro conjI impI)
  assume l: "quicksort_seq_log arr left right = Some (arr', evs)"
  note ev = quicksort_seq_log_events [OF l]
  show "\<forall>(l, r) \<in> set (pivot_ranges evs). 1 \<le> r - l"
  proof (clarify)
    fix l r assume "(l, r) \<in> set (pivot_ranges evs)"
    then have "Pivot l r \<in> set evs" by (simp add: pivot_ranges_set)
    with ev obtain l' r' where "Pivot l r = Pivot l' r'" "l' < r'" by blast
    then show "1 \<le> r - l" by simp
  qed
  show "(left, right) \<in> set (pivot_ranges evs)" if "left < right"
    using ev that by (simp add: pivot_ranges_set)
  show "arr' = arr" and "evs = []" if "right \<le> left"
    using l that by (simp_all add: quicksort_seq_log_base)
next
  assume "quicksort_parallel_log threshold max_depth arr left right depth = Some (arr'', evs')"
  from quicksort_parallel_log_events [OF this]
  show "\<forall>(l, r) \<in> set (pivot_ranges evs'). 1 \<le> r - l" by auto
qed

theorem pivot_selection_ranges_witness:
  "quicksort_seq_log [3, 1, 2 :: int] 0 2 = Some ([1, 2, 3], [Pivot 0 2]) \<and>
   quicksort_parallel_log 0 4 [3, 1, 2 :: int] 0 2 0 =
     Some ([1, 2, 3], [Pivot 0 2, Spawn 0 0 1, Delegate 0 0 1, Delegate 2 2 1]) \<and>
   (0 :: int) < 2 \<and> (0, 2) \<in> set (pivot_ranges [Pivot 0 2]) \<and> (1 :: int) \<le> 2 - 0 \<and>
   quicksort_seq_log [5 :: int] 0 0 = Some ([5], []) \<and> (0 :: int) \<le> 0"
proof -
  have h1: "quicksort_seq_log [3, 1, 2 :: int] 0 2 = Some ([1, 2, 3], [Pivot 0 2])"
    by code_simp
  have h2: "quicksort_parallel_log 0 4 [3, 1, 2 :: int] 0 2 0 =
     Some ([1, 2, 3], [Pivot 0 2, Spawn 0 0 1, Delegate 0 0 1, Delegate 2 2 1])"
    by code_simp
  have h3: "quicksort_seq_log [5 :: int] 0 0 = Some ([5], [])"
    by code_simp
  from pivot_selection_ranges [of "[3, 1, 2 :: int]" 0 2 "[1, 2, 3]" "[Pivot 0 2]"
      0 4 0 "[1, 2, 3]" "[Pivot 0 2, Spawn 0 0 1, Delegate 0 0 1, Delegate 2 2 1]"]
    pivot_selection_ranges [of "[5 :: int]" 0 0 "[5]" "[]" 0 4 0 "[]" "[]"] h1 h2 h3
  show ?thesis by simp
qed

text \<open>
  The bound \<open>right - left \<ge> 2\<close> of the claim as stated fails on a range of two
  elements: \<^verbatim>\<open>quicksort_seq\<close> on \<open>[2, 1]\<close> selects a pivot on \<open>[0, 1]\<close>.
\<close>

theorem pivot_selection_ranges_counterexample:
  "quicksort_seq_log [2, 1 :: int] 0 1 = Some ([1, 2], [Pivot 0 1]) \<and>
   (0, 1) \<in> set (pivot_ranges [Pivot 0 1]) \<and> \<not> (2 :: int) \<le> 1 - 0"
  by code_simp

section \<open>The transition rule of the parallel sort\<close>

text \<open>
  Claim C3, as amended. For a call whose arguments are values of \<^verbatim>\<open>int\<close> and whose
  index expressions do not overflow, \<^verbatim>\<open>quicksort_parallel\<close> hands the whole range to
  \<^verbatim>\<open>quicksort_seq\<close> and returns its result exactly when
  \<open>right - left \<le> threshold\<close> or \<open>depth \<ge> max_depth\<close>; in every other case, on a
  range inside the vector, it selects a pivot, partitions, launches the task for
  \<open>[left, i - 1]\<close> and recurses on both sub-ranges with \<open>depth + 1\<close>, and both
  recursive calls return.
\<close>

theorem coordinator_transition:
  assumes "int_call threshold max_depth left right depth"
  shows "(right - left \<le> int threshold \<or> int max_depth \<le> depth \<longrightarrow>
      quicksort_parallel_log threshold max_depth arr left right depth =
        map_option (\<lambda>(arr', evs). (arr', Delegate left right depth # evs))
          (quicksort_seq_log arr left right)) \<and>
   (\<not> (right - left \<le> int threshold \<or> int max_depth \<le> depth) \<and> in_bounds arr left right \<longrightarrow>
      (\<exists>arr1 i arr2 evs1 arr3 evs2.
         partition_step (choose_pivot arr left right) left right = (arr1, i) \<and>
         quicksort_parallel_log threshold max_depth arr1 left (i - 1) (depth + 1) = Some (arr2, evs1) \<and>
         quicksort_parallel_log threshold max_depth arr2 (i + 1) right (depth + 1) = Some (arr3, evs2) \<and>
         quicksort_parallel_log threshold max_depth arr left right depth =
           Some (arr3, Pivot left right # Spawn left (i - 1) (depth + 1) # evs1 @ evs2)))"
proof (intro conjI impI)
  assume "right - left \<le> int threshold \<or> int max_depth \<le> depth"
  then show "quicksort_parallel_log threshold max_depth arr left right depth =
        map_option (\<lambda>(arr', evs). (arr', Delegate left right depth # evs))
          (quicksort_seq_log arr left right)"
    by (simp add: quicksort_parallel_log_delegate split: option.splits)
next
  assume h: "\<not> (right - left \<le> int threshold \<or> int max_depth \<le> depth) \<and> in_bounds arr left right"
  then have fork: "\<not> (right - left \<le> int threshold \<or> int max_depth \<le> depth)"
    and ib: "in_bounds arr left right" and lt: "left < right" by simp_all
  obtain arr1 i where part: "partition_step (choose_pivot arr left right) left right = (arr1, i)"
    by (cases "partition_step (choose_pivot arr left right) left right")
  note sub = sub_ranges_in_bounds [OF ib lt part]
  have ex: "\<exists>a evs. quicksort_parallel_log threshold max_depth a' l r d = Some (a, evs) \<and>
      permuted_within l r a' a"
    if "in_bounds a' l r" for a' :: "'a list" and l r d
  proof -
    from that obtain a where "quicksort_parallel threshold max_depth a' l r d = Some a"
      "permuted_within l r a' a"
      using quicksort_parallel_correct [of a' l r threshold max_depth d] by blast
    with quicksort_parallel_log_result [of threshold max_depth a' l r d] show ?thesis by auto
  qed
  from ex [OF sub(1)] obtain arr2 evs1 where
    l: "quicksort_parallel_log threshold max_depth arr1 left (i - 1) (depth + 1) = Some (arr2, evs1)"
    "permuted_within left (i - 1) arr1 arr2" by blast
  from ex [OF sub(2) [OF l(2)]] obtain arr3 evs2 where
    r: "quicksort_parallel_log threshold max_depth arr2 (i + 1) right (depth + 1) = Some (arr3, evs2)"
    by blast
  have "quicksort_parallel_log threshold max_depth arr left right depth =
      Some (arr3, Pivot left right # Spawn left (i - 1) (depth + 1) # evs1 @ evs2)"
    using quicksort_parallel_log_fork [OF fork ib part] l(1) r by simp
  with part l(1) r show "\<exists>arr1 i arr2 evs1 arr3 evs2.
         partition_step (choose_pivot arr left right) left right = (arr1, i) \<and>
         quicksort_parallel_log threshold max_depth arr1 left (i - 1) (depth + 1) = Some (arr2, evs1) \<and>
         quicksort_parallel_log threshold max_depth arr2 (i + 1) right (depth + 1) = Some (arr3, evs2) \<and>
         quicksort_parallel_log threshold max_depth arr left right depth =
           Some (arr3, Pivot left right # Spawn left (i - 1) (depth + 1) # evs1 @ evs2)"
    by blast
qed

theorem coordinator_transition_witness:
  "int_call 1 4 0 1 0 \<and> ((1 :: int) - 0 \<le> int 1 \<or> int 4 \<le> 0) \<and>
   quicksort_parallel_log 1 4 [2, 1 :: int] 0 1 0 =
     map_option (\<lambda>(arr', evs). (arr', Delegate 0 1 0 # evs)) (quicksort_seq_log [2, 1 :: int] 0 1) \<and>
   int_call 1 4 0 2 0 \<and>
   \<not> ((2 :: int) - 0 \<le> int 1 \<or> int 4 \<le> 0) \<and> in_bounds [3, 1, 2 :: int] 0 2 \<and>
   (\<exists>arr1 i arr2 evs1 arr3 evs2.
      partition_step (choose_pivot [3, 1, 2 :: int] 0 2) 0 2 = (arr1, i) \<and>
      quicksort_parallel_log 1 4 arr1 0 (i - 1) (0 + 1) = Some (arr2, evs1) \<and>
      quicksort_parallel_log 1 4 arr2 (i + 1) 2 (0 + 1) = Some (arr3, evs2) \<and>
      quicksort_parallel_log 1 4 [3, 1, 2 :: int] 0 2 0 =
        Some (arr3, Pivot 0 2 # Spawn 0 (i - 1) (0 + 1) # evs1 @ evs2))"
proof -
  have h: "in_bounds [3, 1, 2 :: int] 0 2" by (simp add: in_bounds_def)
  have c: "int_call 1 4 0 1 0" "int_call 1 4 0 2 0"
    by (simp_all add: int_call_def is_int_def)
  from coordinator_transition [OF c(1), of "[2, 1 :: int]"]
    coordinator_transition [OF c(2), of "[3, 1, 2 :: int]"] h c
  show ?thesis by simp
qed

text \<open>
  The test is on \<open>right - left\<close>, one less than the number of elements: a range of
  \<open>threshold + 1\<close> elements is still handed to \<^verbatim>\<open>quicksort_seq\<close>. With
  \<open>threshold = 1\<close> and \<open>depth = 0 < max_depth = 4\<close> the range \<open>[0, 1]\<close> has two
  elements, more than the threshold, and is delegated.
\<close>

theorem coordinator_transition_counterexample:
  "\<not> ((1 :: int) - 0 + 1 \<le> int 1 \<or> int 4 \<le> (0 :: int)) \<and>
   quicksort_parallel_log 1 4 [2, 1 :: int] 0 1 0 = Some ([1, 2], [Delegate 0 1 0, Pivot 0 1])"
  by code_simp

section \<open>The number of spawned tasks\<close>

text \<open>
  Claim C9. An execution of the parallel sort from depth \<open>0\<close> launches at most
  \<open>2 ^ max_depth - 1\<close> tasks in all, whatever the vector, so no more than that many are
  alive at any instant; every task is launched with a depth between \<open>1\<close> and
  \<open>max_depth\<close>, one more than the depth of the frame that launches it.
\<close>

theorem spawned_tasks_bound:
  "\<exists>arr' evs. parallelSort_log threshold max_depth arr = Some (arr', evs) \<and>
     length (filter is_Spawn evs) \<le> 2 ^ max_depth - 1 \<and>
     (\<forall>d \<in> set (spawn_depths evs). 0 < d \<and> d \<le> int max_depth)"
proof -
  have "in_bounds arr 0 (int (length arr) - 1)" by (simp add: in_bounds_def)
  then obtain arr' where "quicksort_parallel threshold max_depth arr 0 (int (length arr) - 1) 0 = Some arr'"
    using quicksort_parallel_correct [of arr 0 "int (length arr) - 1" threshold max_depth 0]
    by blast
  with quicksort_parallel_log_result [of threshold max_depth arr 0 "int (length arr) - 1" 0]
  obtain evs where
    l: "quicksort_parallel_log threshold max_depth arr 0 (int (length arr) - 1) 0 = Some (arr', evs)"
    by auto
  from quicksort_parallel_log_events [OF l]
  have "\<forall>d \<in> set (spawn_depths evs). 0 < d \<and> d \<le> int max_depth"
    and "Suc (length (filter is_Spawn evs)) \<le> 2 ^ max_depth"
    by (simp_all add: length_spawn_depths)
  with l show ?thesis by (auto simp: parallelSort_log_def)
qed

theorem spawned_tasks_bound_witness:
  "\<exists>arr' evs. parallelSort_log 0 2 [5, 3, 8, 1, 9, 2, 7, 4 :: int] = Some (arr', evs) \<and>
     length (filter is_Spawn evs) \<le> 2 ^ 2 - 1"
  using spawned_tasks_bound [of 0 2 "[5, 3, 8, 1, 9, 2, 7, 4 :: int]"] by blast

section \<open>Failure of a comparison\<close>

lemma choose_pivot_exn_total:
  "choose_pivot_exn total_less arr left right = Returned (choose_pivot arr left right)"
  by (simp add: choose_pivot_exn_def choose_pivot_def total_less_def Let_def)

lemma partition_loop_exn_total_unfold:
  "partition_loop_exn total_less_eq pivot right arr i j =
     (if j < right then
        (if arr ! nat j \<le> pivot
         then partition_loop_exn total_less_eq pivot right (swap arr (i + 1) j) (i + 1) (j + 1)
         else partition_loop_exn total_less_eq pivot right arr i (j + 1))
      else Returned (arr, i))"
  by (subst partition_loop_exn.simps) (simp add: total_less_eq_def)

lemma partition_loop_exn_total:
  "partition_loop_exn total_less_eq pivot right arr i j = Returned (partition_loop pivot right arr i j)"
proof (induction pivot right arr i j rule: partition_loop.induct)
  case (1 pivot right arr i j)
  show ?case
  proof (cases "j < right")
    case False
    then show ?thesis
      by (subst partition_loop_exn_total_unfold) (simp add: partition_loop_stop)
  next
    case True
    show ?thesis
    proof (cases "arr ! nat j \<le> pivot")
      case le: True
      with "1.IH"(1) [OF True le] True show ?thesis
        by (subst partition_loop_exn_total_unfold) (simp add: partition_loop_le)
    next
      case gt: False
      with "1.IH"(2) [OF True gt] True show ?thesis
        by (subst partition_loop_exn_total_unfold) (simp add: partition_loop_gt)
    qed
  qed
qed

lemma partition_step_exn_total:
  "partition_step_exn total_less_eq arr left right = Returned (partition_step arr left right)"
  by (simp add: partition_step_exn_def partition_step_def partition_loop_exn_total Let_def
      split: prod.splits)

lemma quicksort_seq_exn_total:
  "quicksort_seq_exn total_less total_less_eq arr left right =
   outcome_of (quicksort_seq arr left right)"
proof (induction arr left right rule: quicksort_seq.induct)
  case (1 arr left right)
  show ?case
  proof (cases "right \<le> left")
    case True
    then show ?thesis
      by (subst quicksort_seq_exn.simps) (simp add: quicksort_seq_base outcome_of_def)
  next
    case False
    then have lt: "left < right" by simp
    show ?thesis
    proof (cases "in_bounds arr left right")
      case oob: False
      with lt show ?thesis
        by (subst quicksort_seq_exn.simps) (simp add: quicksort_seq_out_of_bounds outcome_of_def)
    next
      case ib: True
      obtain arr1 i where part: "partition_step (choose_pivot arr left right) left right = (arr1, i)"
        by (cases "partition_step (choose_pivot arr left right) left right")
      have l: "quicksort_seq_exn total_less total_less_eq arr1 left (i - 1) =
          outcome_of (quicksort_seq arr1 left (i - 1))"
        using "1.IH"(1) [OF False _ refl part [symmetric]] ib by simp
      have unf: "quicksort_seq_exn total_less total_less_eq arr left right =
          (case quicksort_seq_exn total_less total_less_eq arr1 left (i - 1) of
             Thrown a \<Rightarrow> Thrown a
           | Undefined \<Rightarrow> Undefined
           | Returned arr2 \<Rightarrow> quicksort_seq_exn total_less total_less_eq arr2 (i + 1) right)"
        using lt ib part
        by (subst quicksort_seq_exn.simps)
          (simp add: choose_pivot_exn_total partition_step_exn_total)
      show ?thesis
      proof (cases "quicksort_seq arr1 left (i - 1)")
        case None
        with l unf show ?thesis
          by (simp add: quicksort_seq_rec [OF lt ib part] outcome_of_def)
      next
        case (Some arr2)
        have "quicksort_seq_exn total_less total_less_eq arr2 (i + 1) right =
            outcome_of (quicksort_seq arr2 (i + 1) right)"
          using "1.IH"(2) [OF False _ refl part [symmetric] Some] ib by simp
        with Some l unf show ?thesis
          by (simp add: quicksort_seq_rec [OF lt ib part] outcome_of_def)
      qed
    qed
  qed
qed

lemma quicksort_seq_exn_rec:
  "left < right \<Longrightarrow> in_bounds arr left right \<Longrightarrow>
   quicksort_seq_exn lt le arr left right =
     (case choose_pivot_exn lt arr left right of
        Thrown arr \<Rightarrow> Thrown arr
      | Undefined \<Rightarrow> Undefined
      | Returned arr0 \<Rightarrow>
          (case partition_step_exn le arr0 left right of
             Thrown arr \<Rightarrow> Thrown arr
           | Undefined \<Rightarrow> Undefined
           | Returned (arr1, i) \<Rightarrow>
               (case quicksort_seq_exn lt le arr1 left (i - 1) of
                  Thrown arr \<Rightarrow> Thrown arr
                | Undefined \<Rightarrow> Undefined
                | Returned arr2 \<Rightarrow> quicksort_seq_exn lt le arr2 (i + 1) right)))"
  by (subst quicksort_seq_exn.simps) simp

lemma quicksort_parallel_exn_overflow:
  "\<not> is_int (right - left) \<Longrightarrow>
   quicksort_parallel_exn lt le threshold max_depth arr left right depth = Undefined"
  by (subst quicksort_parallel_exn.simps) simp

lemma quicksort_parallel_exn_delegate:
  "is_int (right - left) \<Longrightarrow> right - left \<le> int threshold \<or> int max_depth \<le> depth \<Longrightarrow>
   quicksort_parallel_exn lt le threshold max_depth arr left right depth =
   quicksort_seq_exn lt le arr left right"
  by (subst quicksort_parallel_exn.simps) simp

lemma quicksort_parallel_exn_fork:
  "is_int (right - left) \<Longrightarrow> \<not> (right - left \<le> int threshold \<or> int max_depth \<le> depth) \<Longrightarrow>
   in_bounds arr left right \<Longrightarrow>
   quicksort_parallel_exn lt le threshold max_depth arr left right depth =
     (case choose_pivot_exn lt arr left right of
        Thrown arr \<Rightarrow> Thrown arr
      | Undefined \<Rightarrow> Undefined
      | Returned arr0 \<Rightarrow>
          (case partition_step_exn le arr0 left right of
             Thrown arr \<Rightarrow> Thrown arr
           | Undefined \<Rightarrow> Undefined
           | Returned (arr1, i) \<Rightarrow>
               (case wait_for_task
                       (quicksort_parallel_exn lt le threshold max_depth arr1 left (i - 1) (depth + 1)) of
                  None \<Rightarrow> Undefined
                | Some arr2 \<Rightarrow>
                    quicksort_parallel_exn lt le threshold max_depth arr2 (i + 1) right (depth + 1))))"
  by (subst quicksort_parallel_exn.simps) simp

lemma quicksort_parallel_exn_total:
  "left \<le> right + 1 \<Longrightarrow> right - left < 2 ^ 31 \<Longrightarrow>
   quicksort_parallel_exn total_less total_less_eq threshold max_depth arr left right depth =
   outcome_of (quicksort_parallel threshold max_depth arr left right depth)"
proof (induction threshold max_depth arr left right depth rule: quicksort_parallel.induct)
  case (1 threshold max_depth arr left right depth)
  from "1.prems" have ii: "is_int (right - left)" by (simp add: is_int_def)
  show ?case
  proof (cases "right - left \<le> int threshold \<or> depth \<ge> int max_depth")
    case True
    with ii show ?thesis
      by (simp add: quicksort_parallel_exn_delegate quicksort_parallel_delegate
          quicksort_seq_exn_total)
  next
    case False
    then have lt: "left < right" by simp
    show ?thesis
    proof (cases "in_bounds arr left right")
      case oob: False
      with False ii show ?thesis
        by (subst quicksort_parallel_exn.simps)
          (simp add: quicksort_parallel_out_of_bounds outcome_of_def)
    next
      case ib: True
      obtain arr1 i where part: "partition_step (choose_pivot arr left right) left right = (arr1, i)"
        by (cases "partition_step (choose_pivot arr left right) left right")
      have i: "left \<le> i" "i \<le> right"
        using partition_step_index [of left right "choose_pivot arr left right"] part lt
        by simp_all
      have l: "quicksort_parallel_exn total_less total_less_eq threshold max_depth arr1 left (i - 1) (depth + 1) =
          outcome_of (quicksort_parallel threshold max_depth arr1 left (i - 1) (depth + 1))"
        using "1.IH"(1) [OF False _ refl part [symmetric]] ib i "1.prems" by simp
      have unf: "quicksort_parallel_exn total_less total_less_eq threshold max_depth arr left right depth =
          (case wait_for_task
                  (quicksort_parallel_exn total_less total_less_eq threshold max_depth arr1 left (i - 1) (depth + 1)) of
             None \<Rightarrow> Undefined
           | Some arr2 \<Rightarrow>
               quicksort_parallel_exn total_less total_less_eq threshold max_depth arr2 (i + 1) right (depth + 1))"
        using part
        by (simp add: quicksort_parallel_exn_fork [OF ii False ib]
            choose_pivot_exn_total partition_step_exn_total)
      show ?thesis
      proof (cases "quicksort_parallel threshold max_depth arr1 left (i - 1) (depth + 1)")
        case None
        with l unf show ?thesis
          by (simp add: quicksort_parallel_fork [OF False ib part] outcome_of_def)
      next
        case (Some arr2)
        have "quicksort_parallel_exn total_less total_less_eq threshold max_depth arr2 (i + 1) right (depth + 1) =
            outcome_of (quicksort_parallel threshold max_depth arr2 (i + 1) right (depth + 1))"
          using "1.IH"(2) [OF False _ refl part [symmetric] Some] ib i "1.prems" by simp
        with Some l unf show ?thesis
          by (simp add: quicksort_parallel_fork [OF False ib part] outcome_of_def)
      qed
    qed
  qed
qed

lemma partition_loop_exn_all_accepted:
  assumes "j \<le> right" "i + 1 = j"
    and "\<forall>k. j \<le> k \<and> k < right \<longrightarrow> le (arr ! nat k) pivot = Some True"
  shows "partition_loop_exn le pivot right arr i j = Returned (arr, right - 1)"
  using assms
proof (induction le pivot right arr i j rule: partition_loop_exn.induct)
  case (1 le pivot right arr i j)
  show ?case
  proof (cases "j < right")
    case False
    with "1.prems" show ?thesis
      by (subst partition_loop_exn.simps) simp
  next
    case True
    with "1.prems"(3) have acc: "le (arr ! nat j) pivot = Some True" by simp
    have same: "swap arr (i + 1) j = arr" using "1.prems"(2) by simp
    have "partition_loop_exn le pivot right (swap arr (i + 1) j) (i + 1) (j + 1) =
        Returned (swap arr (i + 1) j, right - 1)"
      using "1.IH"(1) [OF True acc] True "1.prems" same by simp
    with True acc same show ?thesis
      by (subst partition_loop_exn.simps) simp
  qed
qed


lemma spawned_failure_dropped:
  fixes arr :: "int list"
  assumes len: "int (length arr) = right + 1" and r: "2 \<le> right" "right < 2 ^ 31"
    and cfg: "int threshold < right" "0 < max_depth"
    and vals: "\<forall>x \<in> set arr. x = 1 \<or> x = 5"
    and at: "arr ! nat (right div 2) = 5" "arr ! nat right = 5" "arr ! nat 0 = 1"
      "arr ! nat ((right - 1) div 2) = 1"
  shows "choose_pivot_exn fragile_less arr 0 right = Returned arr"
    and "partition_step_exn fragile_less_eq arr 0 right = Returned (arr, right)"
    and "quicksort_parallel_exn fragile_less fragile_less_eq threshold max_depth arr 0 (right - 1) (0 + 1) =
      Thrown arr"
    and "quicksort_parallel_exn fragile_less fragile_less_eq threshold max_depth arr 0 right 0 =
      Returned arr"
proof -
  show cp: "choose_pivot_exn fragile_less arr 0 right = Returned arr"
    using at by (simp add: choose_pivot_exn_def Let_def fragile_less_def)
  have acc: "\<forall>k. 0 \<le> k \<and> k < right \<longrightarrow> fragile_less_eq (arr ! nat k) (arr ! nat right) = Some True"
  proof (intro allI impI)
    fix k assume k: "0 \<le> k \<and> k < right"
    then have "nat k < length arr" using len by linarith
    then have "arr ! nat k \<in> set arr" by (rule nth_mem)
    with vals have "arr ! nat k = 1 \<or> arr ! nat k = 5" by blast
    then show "fragile_less_eq (arr ! nat k) (arr ! nat right) = Some True"
      using at(2) by (auto simp: fragile_less_eq_def)
  qed
  have "partition_loop_exn fragile_less_eq (arr ! nat right) right arr (0 - 1) 0 =
      Returned (arr, right - 1)"
    using r acc by (intro partition_loop_exn_all_accepted) simp_all
  then show ps: "partition_step_exn fragile_less_eq arr 0 right = Returned (arr, right)"
    by (simp add: partition_step_exn_def)
  have ib: "in_bounds arr 0 (right - 1)" "in_bounds arr 0 right"
    using len by (simp_all add: in_bounds_def)
  have thrown: "choose_pivot_exn fragile_less arr 0 (right - 1) = Thrown arr"
    using at by (simp add: choose_pivot_exn_def Let_def fragile_less_def)
  have ii: "is_int (right - 1 - 0)" "is_int (right - 0)" "is_int (right - (right + 1))"
    using r by (simp_all add: is_int_def)
  have seq: "quicksort_seq_exn fragile_less fragile_less_eq arr 0 (right - 1) = Thrown arr"
    using r ib(1) thrown by (simp add: quicksort_seq_exn_rec)
  show task: "quicksort_parallel_exn fragile_less fragile_less_eq threshold max_depth arr 0 (right - 1) (0 + 1) =
      Thrown arr"
  proof (cases "right - 1 - 0 \<le> int threshold \<or> int max_depth \<le> 0 + 1")
    case True
    from quicksort_parallel_exn_delegate [OF ii(1) True, of fragile_less fragile_less_eq arr] seq
    show ?thesis by simp
  next
    case False
    from quicksort_parallel_exn_fork [OF ii(1) False ib(1), of fragile_less fragile_less_eq] thrown
    show ?thesis by simp
  qed
  have fork: "\<not> (right - 0 \<le> int threshold \<or> int max_depth \<le> 0)"
    using cfg by simp
  have rest: "quicksort_parallel_exn fragile_less fragile_less_eq threshold max_depth arr (right + 1) right (0 + 1) =
      Returned arr"
  proof -
    have "quicksort_seq_exn fragile_less fragile_less_eq arr (right + 1) right = Returned arr"
      by (subst quicksort_seq_exn.simps) simp
    with quicksort_parallel_exn_delegate [OF ii(3), of threshold max_depth "0 + 1"
        fragile_less fragile_less_eq arr]
    show ?thesis by simp
  qed
  show "quicksort_parallel_exn fragile_less fragile_less_eq threshold max_depth arr 0 right 0 =
      Returned arr"
    using quicksort_parallel_exn_fork [OF ii(2) fork ib(2), of fragile_less fragile_less_eq]
      cp ps task rest by simp
qed

lemma failing_vector_facts:
  "int (length failing_vector) = 10002 + 1"
  "\<forall>x \<in> set failing_vector. x = 1 \<or> x = 5"
  "failing_vector ! nat (10002 div 2) = 5"
  "failing_vector ! nat 10002 = 5"
  "failing_vector ! nat 0 = 1"
  "failing_vector ! nat ((10002 - 1) div 2) = 1"
  "\<not> sorted failing_vector"
  by (simp_all add: failing_vector_def nth_append sorted_append)

text \<open>
  Claim C4. The code does not do what the claim says for a failure inside a spawned left
  branch. With the constants of the source, on \<open>failing_vector\<close> and the comparisons
  that fail when both operands are below \<open>3\<close>: the entry frame selects the pivot \<open>5\<close>
  and partitions without a failure, the vector unchanged and \<open>i = 10002\<close>; it launches
  the task for \<open>[0, 10001]\<close>, whose first comparison, of the elements at \<open>5000\<close> and
  \<open>0\<close>, both \<open>1\<close>, fails, so that the task ends by the exception; the inline branch on
  the empty range \<open>[10003, 10002]\<close> returns; and the entry call returns normally, the
  vector not sorted. The exception of the task reaches no caller.
\<close>

theorem comparator_failure_dropped:
  "length failing_vector = 10003 \<and> \<not> sorted failing_vector \<and>
   choose_pivot_exn fragile_less failing_vector 0 10002 = Returned failing_vector \<and>
   partition_step_exn fragile_less_eq failing_vector 0 10002 = Returned (failing_vector, 10002) \<and>
   quicksort_parallel_exn fragile_less fragile_less_eq SEQUENTIAL_THRESHOLD MAX_DEPTH
     failing_vector 0 (10002 - 1) (0 + 1) = Thrown failing_vector \<and>
   quicksort_parallel_exn fragile_less fragile_less_eq SEQUENTIAL_THRESHOLD MAX_DEPTH
     failing_vector 0 10002 0 = Returned failing_vector"
proof -
  have cfg: "int SEQUENTIAL_THRESHOLD < 10002" "0 < MAX_DEPTH"
    by (simp_all add: SEQUENTIAL_THRESHOLD_def MAX_DEPTH_def)
  have r: "(2 :: int) \<le> 10002" "(10002 :: int) < 2 ^ 31" by simp_all
  note d = spawned_failure_dropped [OF failing_vector_facts(1) r cfg failing_vector_facts(2-6)]
  have "length failing_vector = 10003" using failing_vector_facts(1) by simp
  with d failing_vector_facts(7) show ?thesis by simp
qed

text \<open>
  The same on four elements, with threshold \<open>0\<close> to make the frame fork; the sequential
  sort on the same vector does pass the failure on.
\<close>

lemma comparator_failure_dropped_small:
  "choose_pivot_exn fragile_less [2, 9, 1, 8] 0 3 = Returned [2, 9, 1, 8] \<and>
   partition_step_exn fragile_less_eq [2, 9, 1, 8] 0 3 = Returned ([2, 1, 8, 9], 2) \<and>
   quicksort_parallel_exn fragile_less fragile_less_eq 0 4 [2, 1, 8, 9] 0 (2 - 1) (0 + 1) =
     Thrown [2, 1, 8, 9] \<and>
   quicksort_parallel_exn fragile_less fragile_less_eq 0 4 [2, 9, 1, 8] 0 3 0 = Returned [2, 1, 8, 9] \<and>
   quicksort_seq_exn fragile_less fragile_less_eq [2, 9, 1, 8] 0 3 = Thrown [2, 1, 8, 9]"
  by code_simp

end
